theory Spec2Isabelle
  imports Main "HOL-Library.Word" "HOL-Library.DAList"
begin

unbundle bit_operations_syntax

section \<open>JavaScript strings and values\<close>

text \<open>
  A JavaScript string is a sequence of UTF-16 code units; \<open>asc\<close> writes an ASCII
  literal of the source as such a sequence.
\<close>

type_synonym ustring = "nat list"

definition asc :: "string \<Rightarrow> ustring" where
  "asc s = map of_char s"

text \<open>
  The platform functions that depend on the Unicode character database are not part of the
  repository: \<open>String.prototype.normalize("NFC")\<close>, \<open>String.prototype.toLowerCase\<close> and
  the regular-expression class \<open>\p{P}\<close>. They are parameters of the model.
\<close>

record js_engine =
  normalizeNFC :: "ustring \<Rightarrow> ustring"
  toLowerCase :: "ustring \<Rightarrow> ustring"
  isPunctuation :: "nat \<Rightarrow> bool"

text \<open>\<open>String.prototype.includes\<close>: the argument occurs as a contiguous run of code units.\<close>

fun startsWith :: "ustring \<Rightarrow> ustring \<Rightarrow> bool" where
  "startsWith s [] = True"
| "startsWith [] (k # ks) = False"
| "startsWith (c # cs) (k # ks) = (c = k \<and> startsWith cs ks)"

fun includes_str :: "ustring \<Rightarrow> ustring \<Rightarrow> bool" where
  "includes_str [] k = (k = [])"
| "includes_str (c # cs) k = (startsWith (c # cs) k \<or> includes_str cs k)"

text \<open>
  A configured keyword is any JavaScript value an array literal can hold: the model has
  \<open>null\<close>, booleans, integral numbers and strings.
\<close>

datatype jsval = JNull | JBool bool | JNum int | JStr ustring

datatype js_error = TypeError

fun truthy :: "jsval \<Rightarrow> bool" where
  "truthy JNull = False"
| "truthy (JBool b) = b"
| "truthy (JNum n) = (n \<noteq> 0)"
| "truthy (JStr s) = (s \<noteq> [])"

text \<open>Radix conversion of a non-negative integer, most significant digit first.\<close>

definition digitUnit :: "nat \<Rightarrow> nat" where
  "digitUnit d = (if d < 10 then 48 + d else 87 + d)"

fun toStringRadix :: "nat \<Rightarrow> nat \<Rightarrow> ustring" where
  "toStringRadix r n =
     (if r < 2 \<or> n < r then [digitUnit n]
      else toStringRadix r (n div r) @ [digitUnit (n mod r)])"

declare toStringRadix.simps [simp del]

text \<open>\<open>String(n)\<close> for an integral number below 10^21 in magnitude.\<close>

definition numToString :: "int \<Rightarrow> ustring" where
  "numToString n =
     (if n < 0 then 45 # toStringRadix 10 (nat (- n)) else toStringRadix 10 (nat n))"

fun toString :: "jsval \<Rightarrow> ustring" where
  "toString JNull = asc ''null''"
| "toString (JBool b) = (if b then asc ''true'' else asc ''false'')"
| "toString (JNum n) = numToString n"
| "toString (JStr s) = s"

text \<open>
  The class \<open>\s\<close> of a regular expression, which is also what \<open>String.prototype.trim\<close>
  removes: white space and line terminators.
\<close>

definition isWhiteSpace :: "nat \<Rightarrow> bool" where
  "isWhiteSpace c =
     ((9 \<le> c \<and> c \<le> 13) \<or> c = 32 \<or> c = 0xA0 \<or> c = 0x1680 \<or> (0x2000 \<le> c \<and> c \<le> 0x200A)
      \<or> c = 0x2028 \<or> c = 0x2029 \<or> c = 0x202F \<or> c = 0x205F \<or> c = 0x3000 \<or> c = 0xFEFF)"

definition trim :: "ustring \<Rightarrow> ustring" where
  "trim s = rev (dropWhile isWhiteSpace (rev (dropWhile isWhiteSpace s)))"

text \<open>
  A regular expression with the flag \<open>u\<close> reads its pattern and its subject as code
  points: a high surrogate followed by a low surrogate is one character.
\<close>

fun codePoints :: "ustring \<Rightarrow> nat list" where
  "codePoints (h # l # cs) =
     (if 0xD800 \<le> h \<and> h \<le> 0xDBFF \<and> 0xDC00 \<le> l \<and> l \<le> 0xDFFF
      then (0x10000 + (h - 0xD800) * 0x400 + (l - 0xDC00)) # codePoints cs
      else h # codePoints (l # cs))"
| "codePoints cs = cs"

section \<open>Text matcher (utils/textMatcher.js)\<close>

text \<open>
  \<open>normalizeArabicText(text)\<close>. The three \<open>replace\<close> calls delete code units. For a
  truthy value that is not a string, \<open>text.normalize\<close> is not a function: the TypeError
  is caught and the value is returned as it is.
\<close>

definition stripInvisible :: "ustring \<Rightarrow> ustring" where
  "stripInvisible s =
     filter (\<lambda>c. c \<noteq> 0xAD)
       (filter (\<lambda>c. \<not> (0x200B \<le> c \<and> c \<le> 0x200F))
         (filter (\<lambda>c. c \<noteq> 0x640) s))"

definition normalizeArabicText :: "js_engine \<Rightarrow> jsval \<Rightarrow> jsval" where
  "normalizeArabicText E text =
     (if \<not> truthy text then JStr []
      else case text of
        JStr s \<Rightarrow> JStr (stripInvisible (normalizeNFC E s))
      | _ \<Rightarrow> text)"

text \<open>
  \<open>hashText(text)\<close>: \<open>(hash << 5) - hash + char\<close> cut to 32 bits at every step, then
  the absolute value of the signed result in base 16.
\<close>

definition hashStep :: "32 word \<Rightarrow> nat \<Rightarrow> 32 word" where
  "hashStep hash char = push_bit 5 hash - hash + of_nat char"

definition hashText :: "ustring \<Rightarrow> ustring" where
  "hashText text = toStringRadix 16 (nat \<bar>sint (foldl hashStep 0 text)\<bar>)"

text \<open>
  \<open>escapeRegex(str)\<close> on a string: a backslash goes before each of the characters
  \<open>. * + ? ^ $ { } ( ) | [ ]\<close> and before a backslash.
\<close>

definition isRegexSpecial :: "nat \<Rightarrow> bool" where
  "isRegexSpecial c = (c \<in> {46, 42, 43, 63, 94, 36, 123, 125, 40, 41, 124, 91, 93, 92})"

definition escapeRegex :: "ustring \<Rightarrow> ustring" where
  "escapeRegex str = concat (map (\<lambda>c. if isRegexSpecial c then [92, c] else [c]) str)"

text \<open>
  What the escaped keyword stands for inside the pattern, read as code points: a backslash
  and the character after it stand for that character, any other character for itself.
\<close>

fun patternLiteral :: "nat list \<Rightarrow> nat list" where
  "patternLiteral (b # c # cs) =
     (if b = 92 then c # patternLiteral cs else b # patternLiteral (c # cs))"
| "patternLiteral cs = cs"

text \<open>
  The test of the pattern \<open>(^|\s|[\p{P}])(kw)($|\s|[\p{P}])\<close> with the flag \<open>u\<close>, where
  \<open>kw\<close> is the escaped keyword: the pattern matches when the characters the keyword
  stands for occur with the start of the subject, a white-space character or a punctuation
  character before them, and the end of the subject or such a character after them.
  \<open>wordScan\<close> walks the start positions from left to right; \<open>leftOk\<close> says whether the
  first group can match just before the position.
\<close>

definition wordBoundary :: "js_engine \<Rightarrow> nat \<Rightarrow> bool" where
  "wordBoundary E c = (isWhiteSpace c \<or> isPunctuation E c)"

definition rightOk :: "js_engine \<Rightarrow> nat list \<Rightarrow> bool" where
  "rightOk E rest = (case rest of [] \<Rightarrow> True | c # _ \<Rightarrow> wordBoundary E c)"

fun wordScan :: "js_engine \<Rightarrow> nat list \<Rightarrow> bool \<Rightarrow> nat list \<Rightarrow> bool" where
  "wordScan E k leftOk [] = (leftOk \<and> k = [])"
| "wordScan E k leftOk (c # cs) =
     ((leftOk \<and> startsWith (c # cs) k \<and> rightOk E (drop (length k) (c # cs)))
      \<or> wordScan E k (wordBoundary E c) cs)"

text \<open>
  \<open>escapeRegex\<close> calls \<open>str.replace\<close>, which only a string has; with a string the
  \<open>RegExp\<close> is built and tested.
\<close>

definition wordRegexTest :: "js_engine \<Rightarrow> jsval \<Rightarrow> ustring \<Rightarrow> js_error + bool" where
  "wordRegexTest E searchKeyword searchText =
     (case searchKeyword of
        JStr k \<Rightarrow>
          Inr (wordScan E (patternLiteral (codePoints (escapeRegex k))) True
                 (codePoints searchText))
      | _ \<Rightarrow> Inl TypeError)"

definition keywordToLowerCase :: "js_engine \<Rightarrow> jsval \<Rightarrow> js_error + jsval" where
  "keywordToLowerCase E keyword =
     (case keyword of JStr k \<Rightarrow> Inr (JStr (toLowerCase E k)) | _ \<Rightarrow> Inl TypeError)"

text \<open>
  The loop of \<open>matchKeywords\<close> over the normalized keywords. An exception leaves the
  loop: nothing in \<open>matchKeywords\<close> catches it.
\<close>

fun matchLoop :: "js_engine \<Rightarrow> bool \<Rightarrow> bool \<Rightarrow> ustring \<Rightarrow> jsval list \<Rightarrow> js_error + bool" where
  "matchLoop E caseSens wholeWord searchText [] = Inr False"
| "matchLoop E caseSens wholeWord searchText (keyword # rest) =
     (case (if caseSens then Inr keyword else keywordToLowerCase E keyword) of
        Inl e \<Rightarrow> Inl e
      | Inr searchKeyword \<Rightarrow>
          if wholeWord then
            (case wordRegexTest E searchKeyword searchText of
               Inl e \<Rightarrow> Inl e
             | Inr found \<Rightarrow>
                 if found then Inr True
                 else matchLoop E caseSens wholeWord searchText rest)
          else if includes_str searchText (toString searchKeyword) then Inr True
          else matchLoop E caseSens wholeWord searchText rest)"

text \<open>\<open>matchKeywords(text, keywords, {caseSensitive, wholeWordMatch})\<close> for a string \<open>text\<close>.\<close>

definition matchKeywords ::
  "js_engine \<Rightarrow> ustring \<Rightarrow> jsval list \<Rightarrow> bool \<Rightarrow> bool \<Rightarrow> js_error + bool" where
  "matchKeywords E text keywordList caseSens wholeWord =
     (if text = [] \<or> keywordList = [] then Inr False
      else case normalizeArabicText E (JStr text) of
        JStr normalizedText \<Rightarrow>
          matchLoop E caseSens wholeWord
            (if caseSens then normalizedText else toLowerCase E normalizedText)
            (map (normalizeArabicText E) keywordList)
      | _ \<Rightarrow> Inl TypeError)"

section \<open>Configuration (config.js)\<close>

record chatFilter =
  enabled :: bool
  mode :: ustring
  whitelistedChats :: "ustring list"

record detection =
  keywordList :: "jsval list"
  wholeWordMatch :: bool
  caseSensitive :: bool
  enableDuplicateProtection :: bool
  duplicateCacheTTL :: int
  chatFilterCfg :: chatFilter

section \<open>The watcher (class MessageWatcher)\<close>

text \<open>
  The fields of a watcher that its methods change. \<open>detectedHashes\<close> is a \<open>Map\<close>: an
  association list with distinct keys in insertion order, where \<open>set\<close> replaces the
  value of a key in place or appends a new entry.
\<close>

record watcher =
  observerActive :: bool
  detectedHashes :: "(ustring, int) alist"
  startupTime :: int

text \<open>An entry of the page's queue, and the argument of the detection callback.\<close>

record message =
  msgText :: ustring
  timestamp :: "int option"
  messageKey :: "ustring option"

record messageData =
  keyword :: jsval
  dataText :: ustring
  dataChatName :: ustring
  dataTimestamp :: int

text \<open>
  What the host answers while one message is handled, in the order of the calls: the
  readings of the clock and the chat names read from the page.
\<close>

record readings =
  nowRecent :: int
  nowDuplicate :: int
  nowCleanup :: int
  chatAtFilter :: ustring
  chatAtAlarm :: ustring
  nowData :: int
  nowAlarm :: int

definition MAX_HASH_CACHE_SIZE :: nat where
  "MAX_HASH_CACHE_SIZE = 1000"

text \<open>
  \<open>startupFloor.setSeconds(0, 0)\<close>: the time value with seconds and milliseconds cleared.
  Time values are integer milliseconds since the epoch, and the local offset from UTC is a
  whole number of minutes, so clearing them is rounding down to a multiple of 60000.
\<close>

definition startupFloorTime :: "int \<Rightarrow> int" where
  "startupFloorTime t = t - t mod 60000"

text \<open>
  \<open>_isRecentMessage(timestamp)\<close> with the reading of \<open>Date.now()\<close> as \<open>now\<close>. A
  timestamp is a time value or \<open>null\<close>; the logging calls are left out.
\<close>

definition isRecentMessage :: "watcher \<Rightarrow> int \<Rightarrow> int option \<Rightarrow> bool" where
  "isRecentMessage w now stamp =
     (if stamp = Some 0 then False
      else case stamp of
        None \<Rightarrow> False
      | Some t \<Rightarrow>
          if t > now then False
          else if t \<ge> startupFloorTime (startupTime w) then True
          else False)"

text \<open>\<open>_isHashRecent(hash, currentTime)\<close>.\<close>

definition isHashRecent :: "detection \<Rightarrow> watcher \<Rightarrow> ustring \<Rightarrow> int \<Rightarrow> bool" where
  "isHashRecent cfg w hash currentTime =
     (case DAList.lookup (detectedHashes w) hash of
        None \<Rightarrow> False
      | Some lastDetected \<Rightarrow> currentTime - lastDetected < duplicateCacheTTL cfg)"

text \<open>\<open>_cleanupOldHashes()\<close> with its own reading of the clock.\<close>

definition cleanupOldHashes :: "detection \<Rightarrow> int \<Rightarrow> watcher \<Rightarrow> watcher" where
  "cleanupOldHashes cfg now w =
     (if size (detectedHashes w) \<le> MAX_HASH_CACHE_SIZE then w
      else w\<lparr>detectedHashes :=
        DAList.filter (\<lambda>(hash, lastSeen). \<not> (now - lastSeen > duplicateCacheTTL cfg))
          (detectedHashes w)\<rparr>)"

text \<open>The template literals of \<open>_isDuplicate\<close>; \<open>timestamp ?? ""\<close> is empty for \<open>null\<close>.\<close>

definition stampString :: "int option \<Rightarrow> ustring" where
  "stampString stamp = (case stamp of None \<Rightarrow> [] | Some t \<Rightarrow> numToString t)"

definition fallbackFingerprint :: "ustring \<Rightarrow> int option \<Rightarrow> ustring" where
  "fallbackFingerprint text stamp = text @ asc ''|'' @ stampString stamp"

definition keyFingerprint :: "ustring \<Rightarrow> int option \<Rightarrow> ustring \<Rightarrow> ustring" where
  "keyFingerprint key stamp text =
     key @ asc ''|'' @ stampString stamp @ asc ''|'' @ text"

definition setHash :: "ustring \<Rightarrow> int \<Rightarrow> watcher \<Rightarrow> watcher" where
  "setHash hash now w = w\<lparr>detectedHashes := DAList.update hash now (detectedHashes w)\<rparr>"

text \<open>
  \<open>_isDuplicate(text, timestamp, messageKey)\<close>: the verdict and the watcher after the
  call. \<open>now\<close> is the reading of the clock in \<open>_isDuplicate\<close>, \<open>nowC\<close> the one in
  \<open>_cleanupOldHashes\<close>. A message key is a string or \<open>null\<close>, and is truthy when it is a
  string that is not empty.
\<close>

definition isDuplicate ::
  "detection \<Rightarrow> int \<Rightarrow> int \<Rightarrow> watcher \<Rightarrow> ustring \<Rightarrow> int option \<Rightarrow> ustring option
   \<Rightarrow> bool \<times> watcher" where
  "isDuplicate cfg now nowC w text stamp key =
     (if \<not> enableDuplicateProtection cfg then (False, w)
      else
        let fallbackHash = hashText (fallbackFingerprint text stamp) in
        if isHashRecent cfg w fallbackHash now then (True, w)
        else case key of
          Some k \<Rightarrow>
            if k \<noteq> [] then
              (let keyHash = hashText (keyFingerprint k stamp text) in
               if isHashRecent cfg w keyHash now then (True, w)
               else (False, cleanupOldHashes cfg nowC
                              (setHash fallbackHash now (setHash keyHash now w))))
            else (False, cleanupOldHashes cfg nowC (setHash fallbackHash now w))
        | None \<Rightarrow> (False, cleanupOldHashes cfg nowC (setHash fallbackHash now w)))"

text \<open>
  \<open>_findMatchedKeyword(text)\<close>: the loop over the configured keywords inside the
  \<open>try\<close>, and the \<open>catch\<close> that turns an exception into \<open>null\<close>.
\<close>

fun findLoop :: "js_engine \<Rightarrow> bool \<Rightarrow> bool \<Rightarrow> ustring \<Rightarrow> jsval list \<Rightarrow> js_error + jsval" where
  "findLoop E caseSens wholeWord text [] = Inr JNull"
| "findLoop E caseSens wholeWord text (kw # rest) =
     (case matchKeywords E text [kw] caseSens wholeWord of
        Inl e \<Rightarrow> Inl e
      | Inr found \<Rightarrow>
          if found then Inr kw else findLoop E caseSens wholeWord text rest)"

definition findMatchedKeyword :: "js_engine \<Rightarrow> detection \<Rightarrow> ustring \<Rightarrow> jsval" where
  "findMatchedKeyword E cfg text =
     (case findLoop E (caseSensitive cfg) (wholeWordMatch cfg) text (keywordList cfg) of
        Inl e \<Rightarrow> JNull
      | Inr result \<Rightarrow> result)"

text \<open>\<open>isChatAllowed(chatName)\<close> of modules/watcher.js.\<close>

definition isChatAllowed :: "js_engine \<Rightarrow> chatFilter \<Rightarrow> ustring \<Rightarrow> bool" where
  "isChatAllowed E f chatName =
     (if \<not> enabled f then True
      else if mode f = asc ''whitelist'' then
        list_ex (\<lambda>allowed. includes_str (toLowerCase E chatName) (toLowerCase E allowed))
          (whitelistedChats f)
      else if mode f = asc ''active'' then chatName \<noteq> asc ''Unknown''
      else True)"

text \<open>
  \<open>_isChatAllowed(chatName)\<close> and \<open>_shouldFilterByChat()\<close> of the refactored watcher (a
  leading underscore cannot start a name here); the chat name read from the page is an
  argument.
\<close>

definition priv_isChatAllowed :: "chatFilter \<Rightarrow> ustring \<Rightarrow> bool" where
  "priv_isChatAllowed f chatName =
     (if \<not> enabled f then True
      else if mode f = asc ''whitelist'' then chatName \<in> set (whitelistedChats f)
      else True)"

definition shouldFilterByChat :: "detection \<Rightarrow> ustring \<Rightarrow> bool" where
  "shouldFilterByChat cfg chatName =
     (if \<not> enabled (chatFilterCfg cfg) then False
      else if \<not> priv_isChatAllowed (chatFilterCfg cfg) chatName then True
      else False)"

text \<open>
  \<open>_triggerAlarm(messageData)\<close>. The callback is \<open>None\<close> when it is not defined. What
  the callback does is a function of its argument and of the watcher it finds when it is
  called; the second component of the result is what it returned, or \<open>None\<close> when it was
  not called.
\<close>

definition triggerAlarm ::
  "(messageData \<Rightarrow> watcher \<Rightarrow> 'r) option \<Rightarrow> int \<Rightarrow> messageData \<Rightarrow> watcher
   \<Rightarrow> watcher \<times> 'r option" where
  "triggerAlarm onMessageDetected now d w =
     (case onMessageDetected of
        Some callback \<Rightarrow>
          (let w' = w\<lparr>startupTime := now\<rparr> in (w', Some (callback d w')))
      | None \<Rightarrow> (w, None))"

text \<open>
  \<open>handleMessage(message)\<close>. One call runs to its end before the next one starts, as
  in the loop of \<open>processNewMessages\<close>, which awaits each call; the logging calls are
  left out.
\<close>

definition handleMessage ::
  "js_engine \<Rightarrow> detection \<Rightarrow> (messageData \<Rightarrow> watcher \<Rightarrow> 'r) option \<Rightarrow> readings \<Rightarrow> watcher
   \<Rightarrow> message \<Rightarrow> watcher \<times> 'r option" where
  "handleMessage E cfg onMessageDetected rd w m =
     (if msgText m = [] then (w, None)
      else if \<not> isRecentMessage w (nowRecent rd) (timestamp m) then (w, None)
      else
        let (dup, w1) = isDuplicate cfg (nowDuplicate rd) (nowCleanup rd) w
                          (msgText m) (timestamp m) (messageKey m)
        in
          if dup then (w1, None)
          else
            let matchedKeyword = findMatchedKeyword E cfg (msgText m) in
            if \<not> truthy matchedKeyword then (w1, None)
            else if shouldFilterByChat cfg (chatAtFilter rd) then (w1, None)
            else triggerAlarm onMessageDetected (nowAlarm rd)
                   \<lparr>keyword = matchedKeyword, dataText = msgText m,
                    dataChatName = chatAtAlarm rd, dataTimestamp = nowData rd\<rparr> w1)"

text \<open>
  The loop of \<open>processNewMessages()\<close> over the messages taken from the queue, each with
  the readings of its \<open>handleMessage\<close>; the result lists what the callback returned, in
  the order of the calls.
\<close>

fun processNewMessages ::
  "js_engine \<Rightarrow> detection \<Rightarrow> (messageData \<Rightarrow> watcher \<Rightarrow> 'r) option \<Rightarrow> watcher
   \<Rightarrow> (readings \<times> message) list \<Rightarrow> watcher \<times> 'r list" where
  "processNewMessages E cfg onMessageDetected w [] = (w, [])"
| "processNewMessages E cfg onMessageDetected w ((rd, m) # rest) =
     (let (w1, r) = handleMessage E cfg onMessageDetected rd w m;
          (w2, rs) = processNewMessages E cfg onMessageDetected w1 rest
      in (w2, (case r of None \<Rightarrow> [] | Some x \<Rightarrow> [x]) @ rs))"

text \<open>The constructor, \<open>initialize()\<close> when it succeeds, and \<open>cleanup()\<close>.\<close>

definition newMessageWatcher :: "int \<Rightarrow> watcher" where
  "newMessageWatcher now =
     \<lparr>observerActive = False, detectedHashes = DAList.empty, startupTime = now\<rparr>"

definition initialize :: "watcher \<Rightarrow> watcher" where
  "initialize w = w\<lparr>observerActive := True\<rparr>"

definition cleanup :: "watcher \<Rightarrow> watcher" where
  "cleanup w = w\<lparr>observerActive := False, detectedHashes := DAList.empty\<rparr>"

section \<open>The observer injected into the page\<close>

text \<open>
  The page keeps \<open>window.__seenMessageKeys\<close> and \<open>window.__messageQueue\<close>. A node is
  given by what the document answers about it: whether it is an element, the container
  \<open>findMessageContainer\<close> finds, the \<open>data-id\<close> of the closest ancestor that has one, and
  what \<open>parseTimeOnly\<close> reads in the text; a container by its \<open>data-id\<close>, its text
  content, \<open>isOutgoing\<close>, the text of its first time element and \<open>extractTimestamp\<close>.
\<close>

record container =
  dataId :: "ustring option"
  textContent :: "ustring option"
  outgoing :: bool
  timeText :: "ustring option"
  extractedTimestamp :: "int option"

record node =
  isElement :: bool
  messageContainer :: "container option"
  closestDataId :: "ustring option"
  timeOnly :: "int option"

record page =
  seenMessageKeys :: "ustring set"
  messageQueue :: "message list"

definition MIN_MESSAGE_LENGTH :: nat where
  "MIN_MESSAGE_LENGTH = 2"

definition nonEmpty :: "ustring option \<Rightarrow> ustring option" where
  "nonEmpty s = (case s of None \<Rightarrow> None | Some x \<Rightarrow> if x = [] then None else Some x)"

text \<open>\<open>extractMessageKey(node, container, timeText, text)\<close>.\<close>

definition extractMessageKey :: "node \<Rightarrow> container \<Rightarrow> ustring option \<Rightarrow> ustring \<Rightarrow> ustring" where
  "extractMessageKey n c tt text =
     (case nonEmpty (dataId c) of
        Some d \<Rightarrow> asc ''id:'' @ d
      | None \<Rightarrow>
     (case nonEmpty (closestDataId n) of
        Some d \<Rightarrow> asc ''id:'' @ d
      | None \<Rightarrow>
     (case nonEmpty tt of
        Some t \<Rightarrow> asc ''meta:'' @ t @ asc ''|text:'' @ text
      | None \<Rightarrow>
     (if timeOnly n \<noteq> None \<and> timeOnly n \<noteq> Some 0
      then asc ''time:'' @ stampString (timeOnly n) @ asc ''|text:'' @ text
      else asc ''text:'' @ take 100 (trim text)))))"

definition dedupeKey :: "ustring \<Rightarrow> int option \<Rightarrow> ustring \<Rightarrow> ustring" where
  "dedupeKey key stamp text =
     (if key \<noteq> [] then key @ asc ''|'' @ stampString stamp @ asc ''|'' @ text
      else text @ asc ''|'' @ stampString stamp)"

text \<open>\<open>processNode(node)\<close>.\<close>

definition processNode :: "node \<Rightarrow> page \<Rightarrow> page" where
  "processNode n p =
     (if \<not> isElement n then p
      else case messageContainer n of
        None \<Rightarrow> p
      | Some c \<Rightarrow>
          let text = (case textContent c of None \<Rightarrow> [] | Some s \<Rightarrow> trim s) in
          if length text \<le> MIN_MESSAGE_LENGTH then p
          else if outgoing c then p
          else
            let stamp = extractedTimestamp c;
                key = extractMessageKey n c (timeText c) text;
                dk = dedupeKey key stamp text
            in
              if dk \<in> seenMessageKeys p then p
              else p\<lparr>seenMessageKeys := insert dk (seenMessageKeys p),
                     messageQueue := messageQueue p @
                       [\<lparr>msgText = text, timestamp = stamp, messageKey = Some key\<rparr>]\<rparr>)"

text \<open>
  What happens to the page: the observer is injected, a batch of added nodes is delivered,
  \<open>processNewMessages\<close> takes the queue, \<open>resetAfterAlarmStop\<close> empties it.
\<close>

datatype pageEvent = Inject | Added "node list" | Drain | ResetAfterAlarmStop

fun pageStep :: "page \<Rightarrow> pageEvent \<Rightarrow> page" where
  "pageStep p Inject = p\<lparr>messageQueue := []\<rparr>"
| "pageStep p (Added nodes) = foldl (\<lambda>q n. processNode n q) p nodes"
| "pageStep p Drain = p\<lparr>messageQueue := []\<rparr>"
| "pageStep p ResetAfterAlarmStop = p\<lparr>messageQueue := []\<rparr>"

definition pageRun :: "page \<Rightarrow> pageEvent list \<Rightarrow> page" where
  "pageRun p events = foldl pageStep p events"

section \<open>A concrete engine for Arabic and ASCII text\<close>

text \<open>
  The engine used to evaluate the model on concrete inputs. It follows the Unicode
  character database on text made of ASCII characters, the Arabic letters U+0621 to U+064A,
  the Arabic marks U+064B to U+0655 and U+0670, and the characters the normalizer deletes:
  the canonical combining classes of the marks (every other character is a starter), the
  canonical decompositions of U+0622 to U+0626, and the three steps of NFC (decompose,
  order the marks of a run by combining class, compose a mark with the last starter unless
  a character in between blocks it).
\<close>

definition combiningClass :: "nat \<Rightarrow> nat" where
  "combiningClass c =
     (if 0x64B \<le> c \<and> c \<le> 0x652 then c - 0x64B + 27
      else if c = 0x653 \<or> c = 0x654 then 230
      else if c = 0x655 then 220
      else if c = 0x670 then 35
      else 0)"

definition decomposeUnit :: "nat \<Rightarrow> nat list" where
  "decomposeUnit c =
     (if c = 0x622 then [0x627, 0x653]
      else if c = 0x623 then [0x627, 0x654]
      else if c = 0x624 then [0x648, 0x654]
      else if c = 0x625 then [0x627, 0x655]
      else if c = 0x626 then [0x64A, 0x654]
      else [c])"

definition composePair :: "nat \<Rightarrow> nat \<Rightarrow> nat option" where
  "composePair s c =
     (if s = 0x627 \<and> c = 0x653 then Some 0x622
      else if s = 0x627 \<and> c = 0x654 then Some 0x623
      else if s = 0x648 \<and> c = 0x654 then Some 0x624
      else if s = 0x627 \<and> c = 0x655 then Some 0x625
      else if s = 0x64A \<and> c = 0x654 then Some 0x626
      else None)"

fun insertMark :: "nat \<Rightarrow> nat list \<Rightarrow> nat list" where
  "insertMark c [] = [c]"
| "insertMark c (d # ds) =
     (if combiningClass d \<noteq> 0 \<and> combiningClass d < combiningClass c
      then d # insertMark c ds else c # d # ds)"

fun canonicalOrder :: "nat list \<Rightarrow> nat list" where
  "canonicalOrder [] = []"
| "canonicalOrder (c # cs) =
     (if combiningClass c = 0 then c # canonicalOrder cs
      else insertMark c (canonicalOrder cs))"

fun composeFrom :: "nat option \<Rightarrow> nat list \<Rightarrow> nat list \<Rightarrow> nat list" where
  "composeFrom None pending [] = pending"
| "composeFrom (Some s) pending [] = s # pending"
| "composeFrom None pending (c # cs) =
     (if combiningClass c = 0 then pending @ composeFrom (Some c) [] cs
      else composeFrom None (pending @ [c]) cs)"
| "composeFrom (Some s) pending (c # cs) =
     (if (pending = [] \<or> combiningClass (last pending) < combiningClass c)
         \<and> composePair s c \<noteq> None
      then composeFrom (composePair s c) pending cs
      else if combiningClass c = 0 then s # pending @ composeFrom (Some c) [] cs
      else composeFrom (Some s) (pending @ [c]) cs)"

definition nfcArabic :: "ustring \<Rightarrow> ustring" where
  "nfcArabic s = composeFrom None [] (canonicalOrder (concat (map decomposeUnit s)))"

definition lowerAscii :: "ustring \<Rightarrow> ustring" where
  "lowerAscii s = map (\<lambda>c. if 65 \<le> c \<and> c \<le> 90 then c + 32 else c) s"

definition punctuationArabic :: "nat \<Rightarrow> bool" where
  "punctuationArabic c =
     ((0x21 \<le> c \<and> c \<le> 0x23) \<or> (0x25 \<le> c \<and> c \<le> 0x2A) \<or> (0x2C \<le> c \<and> c \<le> 0x2F)
      \<or> c = 0x3A \<or> c = 0x3B \<or> c = 0x3F \<or> c = 0x40 \<or> (0x5B \<le> c \<and> c \<le> 0x5D)
      \<or> c = 0x5F \<or> c = 0x7B \<or> c = 0x7D
      \<or> c = 0x60C \<or> c = 0x60D \<or> c = 0x61B \<or> c = 0x61E \<or> c = 0x61F
      \<or> (0x66A \<le> c \<and> c \<le> 0x66D))"

definition arabic_engine :: js_engine where
  "arabic_engine =
     \<lparr>normalizeNFC = nfcArabic, toLowerCase = lowerAscii, isPunctuation = punctuationArabic\<rparr>"

section \<open>What the matcher tests\<close>

text \<open>
  The string \<open>normalizeArabicText\<close> returns for a string, and the form in which a text or
  a keyword is compared: normalized, and lower-cased unless matching is case-sensitive.
\<close>

definition normalizedString :: "js_engine \<Rightarrow> ustring \<Rightarrow> ustring" where
  "normalizedString E s = (if s = [] then [] else stripInvisible (normalizeNFC E s))"

definition searchForm :: "js_engine \<Rightarrow> bool \<Rightarrow> ustring \<Rightarrow> ustring" where
  "searchForm E caseSens s =
     (if caseSens then normalizedString E s else toLowerCase E (normalizedString E s))"

text \<open>
  A keyword string matches a text when the text is not empty and the keyword's search form
  is contained in the text's search form, as a run of code units in substring mode, between
  word boundaries in whole-word mode.
\<close>

definition keywordMatches :: "js_engine \<Rightarrow> bool \<Rightarrow> bool \<Rightarrow> ustring \<Rightarrow> ustring \<Rightarrow> bool" where
  "keywordMatches E caseSens wholeWord text k =
     (text \<noteq> [] \<and>
      (if wholeWord
       then wordScan E (codePoints (searchForm E caseSens k)) True
              (codePoints (searchForm E caseSens text))
       else includes_str (searchForm E caseSens text) (searchForm E caseSens k)))"

text \<open>The keyword and the two texts of the whole-word example, as code units.\<close>

definition kw_delay :: ustring where
  "kw_delay = [0x62A, 0x623, 0x62E, 0x64A, 0x631]"

definition text_delay_today :: ustring where
  "text_delay_today =
     [0x62A, 0x623, 0x62E, 0x64A, 0x631, 0x20, 0x627, 0x644, 0x64A, 0x648, 0x645]"

definition text_late :: ustring where
  "text_late = [0x645, 0x62A, 0x623, 0x62E, 0x64A, 0x631, 0x629]"

text \<open>The settings of config.js, with the keyword list left open.\<close>

definition defaultChatFilter :: chatFilter where
  "defaultChatFilter =
     \<lparr>enabled = False, mode = asc ''whitelist'',
      whitelistedChats = [asc ''Mom'', asc ''Work Group'', asc ''Family'']\<rparr>"

definition defaultDetection :: "jsval list \<Rightarrow> detection" where
  "defaultDetection ks =
     \<lparr>keywordList = ks, wholeWordMatch = False, caseSensitive = False,
      enableDuplicateProtection = True, duplicateCacheTTL = 3600000,
      chatFilterCfg = defaultChatFilter\<rparr>"

text \<open>
  A scenario: a callback that reports its argument and the watermark it finds, readings
  taken at one moment in the chat "Mom", and a candidate stamped with minute 2.
\<close>

definition reportCallback :: "messageData \<Rightarrow> watcher \<Rightarrow> messageData \<times> int" where
  "reportCallback d w = (d, startupTime w)"

definition readingsAt :: "int \<Rightarrow> readings" where
  "readingsAt t =
     \<lparr>nowRecent = t, nowDuplicate = t, nowCleanup = t, chatAtFilter = asc ''Mom'',
      chatAtAlarm = asc ''Mom'', nowData = t, nowAlarm = t\<rparr>"

definition delay_candidate :: message where
  "delay_candidate =
     \<lparr>msgText = text_delay_today, timestamp = Some 120000, messageKey = Some (asc ''id:1'')\<rparr>"

definition fresh_candidate :: message where
  "fresh_candidate =
     \<lparr>msgText = text_delay_today, timestamp = Some 180000, messageKey = Some (asc ''id:2'')\<rparr>"

text \<open>
  The dedupe key \<open>processNode\<close> computes for a node, or \<open>None\<close> for a node it drops
  before computing one; and a node for the examples.
\<close>

definition nodeDedupeKey :: "node \<Rightarrow> ustring option" where
  "nodeDedupeKey n =
     (if \<not> isElement n then None
      else case messageContainer n of
        None \<Rightarrow> None
      | Some c \<Rightarrow>
          let text = (case textContent c of None \<Rightarrow> [] | Some s \<Rightarrow> trim s) in
          if length text \<le> MIN_MESSAGE_LENGTH \<or> outgoing c then None
          else Some (dedupeKey (extractMessageKey n c (timeText c) text)
                       (extractedTimestamp c) text))"

definition sample_node :: node where
  "sample_node =
     \<lparr>isElement = True,
      messageContainer = Some \<lparr>dataId = Some (asc ''m1''), textContent = Some (asc '' hello ''),
        outgoing = False, timeText = None, extractedTimestamp = Some 120000\<rparr>,
      closestDataId = None, timeOnly = None\<rparr>"

definition emptyPage :: page where
  "emptyPage = \<lparr>seenMessageKeys = {}, messageQueue = []\<rparr>"

text \<open>
  The fingerprints of a message: the hashes \<open>_isDuplicate\<close> looks up and records for it,
  the one of its text and timestamp and, with a message key, the one of its key.
\<close>

definition fingerprints :: "message \<Rightarrow> ustring set" where
  "fingerprints m =
     insert (hashText (fallbackFingerprint (msgText m) (timestamp m)))
       (case messageKey m of
          None \<Rightarrow> {}
        | Some k \<Rightarrow>
            if k = [] then {} else {hashText (keyFingerprint k (timestamp m) (msgText m))})"

text \<open>
  Two other messages for the scenarios: one without a keyword, and one with the keyword
  that arrives an hour later.
\<close>

definition hello_message :: message where
  "hello_message = \<lparr>msgText = asc ''hello'', timestamp = Some 180000, messageKey = None\<rparr>"

definition later_message :: message where
  "later_message = \<lparr>msgText = kw_delay, timestamp = Some 3660000, messageKey = None\<rparr>"

section \<open>Matching, in the words of the specification\<close>

text \<open>
  The normal form of section 4.1: empty input gives the empty string; otherwise NFC, then
  the tatweel U+0640, the characters U+200B to U+200F and the soft hyphen U+00AD are taken
  out.
\<close>

definition spec_normalize :: "js_engine \<Rightarrow> ustring \<Rightarrow> ustring" where
  "spec_normalize E s =
     (if s = [] then []
      else filter (\<lambda>c. c \<noteq> 0x640 \<and> \<not> (0x200B \<le> c \<and> c \<le> 0x200F) \<and> c \<noteq> 0xAD)
             (normalizeNFC E s))"

definition spec_compared :: "js_engine \<Rightarrow> bool \<Rightarrow> ustring \<Rightarrow> ustring" where
  "spec_compared E caseSens s =
     (if caseSens then spec_normalize E s else toLowerCase E (spec_normalize E s))"

text \<open>
  The match of section 4.2 between a text and one keyword string, both normalized and, when
  matching is not case-sensitive, lower-cased. In substring mode the keyword occurs in the
  text. In whole-word mode it occurs, character by character, with the start of the text, a
  white-space character or a punctuation character before it and the end of the text or
  such a character after it. Nothing matches an empty text.
\<close>

definition spec_matches :: "js_engine \<Rightarrow> bool \<Rightarrow> bool \<Rightarrow> ustring \<Rightarrow> ustring \<Rightarrow> bool" where
  "spec_matches E caseSens wholeWord text k =
     (text \<noteq> [] \<and>
      (if wholeWord then
         (\<exists>before after.
            codePoints (spec_compared E caseSens text)
              = before @ codePoints (spec_compared E caseSens k) @ after
            \<and> (before = [] \<or> isWhiteSpace (last before) \<or> isPunctuation E (last before))
            \<and> (after = [] \<or> isWhiteSpace (hd after) \<or> isPunctuation E (hd after)))
       else
         (\<exists>before after.
            spec_compared E caseSens text = before @ spec_compared E caseSens k @ after)))"

text \<open>The keyword of the example written with a tatweel after its third letter.\<close>

definition kw_stretched :: ustring where
  "kw_stretched = [0x62A, 0x623, 0x62E, 0x640, 0x64A, 0x631]"

section \<open>Recency filter\<close>

lemma isRecentMessage_iff:
  "isRecentMessage w now ts =
     (\<exists>t. ts = Some t \<and> t \<noteq> 0 \<and> t \<le> now \<and> startupFloorTime (startupTime w) \<le> t)"
  by (cases ts) (auto simp: isRecentMessage_def)



section \<open>Chat filter\<close>

lemma asc_active_not_whitelist: "asc ''active'' \<noteq> asc ''whitelist''"
  by (simp add: asc_def)

text \<open>
  C2, as the code has it. With chat filtering enabled and the mode set to "active",
  \<open>isChatAllowed\<close> of modules/watcher.js returns true exactly for the chat names other
  than "Unknown"; \<open>_isChatAllowed\<close> of the refactored watcher, which has no branch for
  that mode, returns true for every chat name.
\<close>

theorem chat_filter_active_mode:
  "enabled f \<Longrightarrow> mode f = asc ''active'' \<Longrightarrow>
   isChatAllowed E f chatName = (chatName \<noteq> asc ''Unknown'') \<and> priv_isChatAllowed f chatName"
  by (simp add: isChatAllowed_def priv_isChatAllowed_def asc_active_not_whitelist)

theorem chat_filter_active_mode_witness:
  "isChatAllowed arabic_engine
     \<lparr>enabled = True, mode = asc ''active'', whitelistedChats = [asc ''Mom'']\<rparr> (asc ''Dad'')
   \<and> \<not> isChatAllowed arabic_engine
     \<lparr>enabled = True, mode = asc ''active'', whitelistedChats = [asc ''Mom'']\<rparr> (asc ''Unknown'')
   \<and> priv_isChatAllowed
     \<lparr>enabled = True, mode = asc ''active'', whitelistedChats = [asc ''Mom'']\<rparr> (asc ''Dad'')"
  using chat_filter_active_mode
    [of "\<lparr>enabled = True, mode = asc ''active'', whitelistedChats = [asc ''Mom'']\<rparr>"
        arabic_engine "asc ''Dad''"]
    chat_filter_active_mode
    [of "\<lparr>enabled = True, mode = asc ''active'', whitelistedChats = [asc ''Mom'']\<rparr>"
        arabic_engine "asc ''Unknown''"]
  by (simp add: asc_def)

text \<open>
  C2 as stated fails on the refactored watcher: in the mode "active" its \<open>_isChatAllowed\<close>
  allows the chat name "Unknown", so \<open>_shouldFilterByChat\<close> lets the message through.
\<close>

theorem chat_filter_active_unknown_counterexample:
  "priv_isChatAllowed
     \<lparr>enabled = True, mode = asc ''active'', whitelistedChats = [asc ''Mom'']\<rparr> (asc ''Unknown'')
   \<and> \<not> shouldFilterByChat
        ((defaultDetection [JStr kw_delay])
          \<lparr>chatFilterCfg := \<lparr>enabled = True, mode = asc ''active'',
                              whitelistedChats = [asc ''Mom'']\<rparr>\<rparr>)
        (asc ''Unknown'')"
  by (simp add: priv_isChatAllowed_def shouldFilterByChat_def asc_def)

section \<open>Normalization and keyword matching\<close>

lemma stripInvisible_idem: "stripInvisible (stripInvisible s) = stripInvisible s"
  by (induction s) (auto simp: stripInvisible_def)

lemma normalizeArabicText_JStr: "normalizeArabicText E (JStr s) = JStr (normalizedString E s)"
  by (simp add: normalizeArabicText_def normalizedString_def)

lemma startsWith_iff: "startsWith t k \<longleftrightarrow> (\<exists>post. t = k @ post)"
  by (induction t k rule: startsWith.induct) auto

lemma includes_str_iff: "includes_str t k \<longleftrightarrow> (\<exists>pre post. t = pre @ k @ post)"
proof (induction t)
  case Nil
  then show ?case by auto
next
  case (Cons c cs)
  show ?case
  proof
    assume "includes_str (c # cs) k"
    then consider "startsWith (c # cs) k" | "includes_str cs k" by auto
    then show "\<exists>pre post. c # cs = pre @ k @ post"
    proof cases
      case 1
      then obtain post where "c # cs = k @ post" by (auto simp: startsWith_iff)
      then have "c # cs = [] @ k @ post" by simp
      then show ?thesis by blast
    next
      case 2
      then obtain pre post where "cs = pre @ k @ post" using Cons.IH by auto
      then have "c # cs = (c # pre) @ k @ post" by simp
      then show ?thesis by blast
    qed
  next
    assume "\<exists>pre post. c # cs = pre @ k @ post"
    then obtain pre post where e: "c # cs = pre @ k @ post" by auto
    show "includes_str (c # cs) k"
    proof (cases pre)
      case Nil
      with e have "startsWith (c # cs) k" by (auto simp: startsWith_iff)
      then show ?thesis by simp
    next
      case (Cons p ps)
      with e have "cs = ps @ k @ post" by simp
      then have "includes_str cs k" using Cons.IH by auto
      then show ?thesis by simp
    qed
  qed
qed

lemma wordScan_iff:
  "wordScan E k l cs \<longleftrightarrow>
     (\<exists>pre post. cs = pre @ k @ post
        \<and> (if pre = [] then l else wordBoundary E (last pre)) \<and> rightOk E post)"
proof (induction cs arbitrary: l)
  case Nil
  then show ?case by (auto simp: rightOk_def)
next
  case (Cons c cs)
  show ?case
  proof
    assume "wordScan E k l (c # cs)"
    then consider "l \<and> startsWith (c # cs) k \<and> rightOk E (drop (length k) (c # cs))"
      | "wordScan E k (wordBoundary E c) cs" by auto
    then show "\<exists>pre post. c # cs = pre @ k @ post
        \<and> (if pre = [] then l else wordBoundary E (last pre)) \<and> rightOk E post"
    proof cases
      case 1
      then obtain post where p: "c # cs = k @ post" by (auto simp: startsWith_iff)
      then have "drop (length k) (c # cs) = post" by simp
      with 1 p have "c # cs = [] @ k @ post \<and> l \<and> rightOk E post" by simp
      then show ?thesis by (metis (full_types))
    next
      case 2
      then obtain pre post where p: "cs = pre @ k @ post"
        "if pre = [] then wordBoundary E c else wordBoundary E (last pre)" "rightOk E post"
        using Cons.IH by blast
      then have "c # cs = (c # pre) @ k @ post \<and> wordBoundary E (last (c # pre)) \<and> rightOk E post"
        by (auto split: if_splits)
      then show ?thesis by (metis list.distinct(1))
    qed
  next
    assume "\<exists>pre post. c # cs = pre @ k @ post
        \<and> (if pre = [] then l else wordBoundary E (last pre)) \<and> rightOk E post"
    then obtain pre post where e: "c # cs = pre @ k @ post"
      "if pre = [] then l else wordBoundary E (last pre)" "rightOk E post" by blast
    show "wordScan E k l (c # cs)"
    proof (cases pre)
      case Nil
      with e have k: "c # cs = k @ post" and l: "l" by simp_all
      from k have "startsWith (c # cs) k" by (auto simp: startsWith_iff)
      moreover from k have "drop (length k) (c # cs) = post" by simp
      ultimately have "l \<and> startsWith (c # cs) k \<and> rightOk E (drop (length k) (c # cs))"
        using l e(3) by simp
      then show ?thesis by (simp only: wordScan.simps) blast
    next
      case (Cons p ps)
      with e have "cs = ps @ k @ post" "p = c" by simp_all
      moreover from e Cons have "if ps = [] then wordBoundary E c else wordBoundary E (last ps)"
        using \<open>p = c\<close> by (auto split: if_splits)
      ultimately have "wordScan E k (wordBoundary E c) cs" using Cons.IH e(3) by blast
      then show ?thesis by simp
    qed
  qed
qed

lemma codePoints_plain:
  "\<not> (0xD800 \<le> h \<and> h \<le> 0xDBFF) \<Longrightarrow> codePoints (h # rest) = h # codePoints rest"
  by (cases rest) auto

lemma codePoints_unpaired:
  "\<not> (0xDC00 \<le> l \<and> l \<le> 0xDFFF) \<Longrightarrow> codePoints (h # l # rest) = h # codePoints (l # rest)"
  by simp

lemma patternLiteral_plain: "b \<noteq> 92 \<Longrightarrow> patternLiteral (b # xs) = b # patternLiteral xs"
  by (cases xs) simp_all

lemma special_small: "isRegexSpecial c \<Longrightarrow> c < 128"
  by (auto simp: isRegexSpecial_def)

lemma escapeRegex_Cons:
  "escapeRegex (c # cs) = (if isRegexSpecial c then 92 # c # escapeRegex cs else c # escapeRegex cs)"
  by (simp add: escapeRegex_def)

lemma escapeRegex_Nil: "escapeRegex [] = []"
  by (simp add: escapeRegex_def)

lemma escaped_head:
  "escapeRegex (c # cs) = x # xs \<Longrightarrow> (x = c \<and> \<not> isRegexSpecial c) \<or> (x = 92 \<and> isRegexSpecial c)"
  by (auto simp: escapeRegex_Cons split: if_splits)

lemma patternLiteral_escapeRegex:
  "patternLiteral (codePoints (escapeRegex k)) = codePoints k"
proof (induction k rule: codePoints.induct)
  case (1 h l cs)
  show ?case
  proof (cases "0xD800 \<le> h \<and> h \<le> 0xDBFF \<and> 0xDC00 \<le> l \<and> l \<le> 0xDFFF")
    case True
    then have ns: "\<not> isRegexSpecial h" "\<not> isRegexSpecial l"
      using special_small [of h] special_small [of l] by auto
    from True have ih: "patternLiteral (codePoints (escapeRegex cs)) = codePoints cs"
      using "1.IH"(1) by simp
    have "codePoints (escapeRegex (h # l # cs)) =
            (0x10000 + (h - 0xD800) * 0x400 + (l - 0xDC00)) # codePoints (escapeRegex cs)"
      using True ns by (simp add: escapeRegex_Cons)
    moreover have "(0x10000 + (h - 0xD800) * 0x400 + (l - 0xDC00)) \<noteq> (92::nat)" by simp
    ultimately show ?thesis
      using True ih by (simp add: patternLiteral_plain)
  next
    case False
    then have ih: "patternLiteral (codePoints (escapeRegex (l # cs))) = codePoints (l # cs)"
      using "1.IH"(2) by simp
    from False have rhs: "codePoints (h # l # cs) = h # codePoints (l # cs)" by simp
    show ?thesis
    proof (cases "isRegexSpecial h")
      case True
      then have "\<not> (0xD800 \<le> h \<and> h \<le> 0xDBFF)" using special_small [of h] by auto
      then have "codePoints (escapeRegex (h # l # cs)) = 92 # h # codePoints (escapeRegex (l # cs))"
        using True by (simp add: escapeRegex_Cons [of h] codePoints_plain)
      then show ?thesis using ih rhs by simp
    next
      case nsp: False
      then have h92: "h \<noteq> 92" by (auto simp: isRegexSpecial_def)
      have "codePoints (h # escapeRegex (l # cs)) = h # codePoints (escapeRegex (l # cs))"
      proof (cases "0xD800 \<le> h \<and> h \<le> 0xDBFF")
        case True
        with False have nl: "\<not> (0xDC00 \<le> l \<and> l \<le> 0xDFFF)" by simp
        obtain x xs where e: "escapeRegex (l # cs) = x # xs"
          by (cases "escapeRegex (l # cs)") (simp_all add: escapeRegex_Cons split: if_splits)
        from escaped_head [OF e] nl have "\<not> (0xDC00 \<le> x \<and> x \<le> 0xDFFF)" by auto
        then show ?thesis by (simp add: e)
      next
        case False
        then show ?thesis by (rule codePoints_plain)
      qed
      then have "codePoints (escapeRegex (h # l # cs)) = h # codePoints (escapeRegex (l # cs))"
        using nsp by (simp add: escapeRegex_Cons [of h])
      then show ?thesis using ih rhs h92 by (simp add: patternLiteral_plain)
    qed
  qed
qed (simp_all add: escapeRegex_Cons escapeRegex_Nil)

lemma matchKeywords_string:
  "matchKeywords E text [JStr k] caseSens wholeWord = Inr (keywordMatches E caseSens wholeWord text k)"
  by (cases "text = []")
     (simp_all add: matchKeywords_def normalizeArabicText_JStr keywordMatches_def searchForm_def
        keywordToLowerCase_def wordRegexTest_def patternLiteral_escapeRegex)

lemma findLoop_strings:
  "findLoop E caseSens wholeWord text (map JStr ks) =
     Inr (case find (keywordMatches E caseSens wholeWord text) ks of
            None \<Rightarrow> JNull | Some k \<Rightarrow> JStr k)"
  by (induction ks) (simp_all add: matchKeywords_string)

lemma findLoop_failure:
  "(\<forall>k\<in>set pre. matchKeywords E text [k] caseSens wholeWord = Inr False) \<Longrightarrow>
   findLoop E caseSens wholeWord text (pre @ rest) = findLoop E caseSens wholeWord text rest"
  by (induction pre) simp_all

lemmas engine_eval = arabic_engine_def nfcArabic_def lowerAscii_def punctuationArabic_def
  decomposeUnit_def combiningClass_def composePair_def stripInvisible_def isWhiteSpace_def
  wordBoundary_def rightOk_def

lemmas example_strings = kw_delay_def text_delay_today_def text_late_def

lemma keywordMatches_substring:
  "keywordMatches E caseSens False text k \<longleftrightarrow>
     text \<noteq> [] \<and> (\<exists>pre post. searchForm E caseSens text = pre @ searchForm E caseSens k @ post)"
  by (simp add: keywordMatches_def includes_str_iff)

lemma keywordMatches_wholeWord:
  "keywordMatches E caseSens True text k \<longleftrightarrow>
     text \<noteq> [] \<and>
     (\<exists>pre post. codePoints (searchForm E caseSens text)
                   = pre @ codePoints (searchForm E caseSens k) @ post
        \<and> (pre = [] \<or> wordBoundary E (last pre)) \<and> (post = [] \<or> wordBoundary E (hd post)))"
proof -
  have r: "rightOk E post = (post = [] \<or> wordBoundary E (hd post))" for post
    by (cases post) (simp_all add: rightOk_def)
  have l: "(if pre = [] then True else wordBoundary E (last pre))
             = (pre = [] \<or> wordBoundary E (last pre))" for pre
    by simp
  show ?thesis
    by (simp only: keywordMatches_def wordScan_iff r l if_True)
qed

lemma normalizedString_spec: "normalizedString E s = spec_normalize E s"
proof -
  have "(\<lambda>c. c \<noteq> 0x640 \<and> \<not> (0x200B \<le> c \<and> c \<le> 0x200F) \<and> c \<noteq> 0xAD)
          = (\<lambda>c::nat. (c \<noteq> 0x640 \<and> \<not> (0x200B \<le> c \<and> c \<le> 0x200F)) \<and> c \<noteq> 0xAD)"
    by auto
  then show ?thesis
    by (simp add: normalizedString_def spec_normalize_def stripInvisible_def)
qed

lemma searchForm_spec: "searchForm E caseSens s = spec_compared E caseSens s"
  by (simp add: searchForm_def spec_compared_def normalizedString_spec)

lemma keywordMatches_spec:
  "keywordMatches E caseSens wholeWord text k = spec_matches E caseSens wholeWord text k"
proof (cases wholeWord)
  case True
  then show ?thesis
    by (simp add: keywordMatches_wholeWord spec_matches_def searchForm_spec wordBoundary_def)
next
  case False
  then show ?thesis
    by (simp add: keywordMatches_substring spec_matches_def searchForm_spec)
qed

text \<open>
  C7, as the code has it. With a list of keyword strings, the keyword search returns the
  first keyword of the list that matches the text in the sense of \<open>spec_matches\<close>, as the
  configured string itself, and \<open>null\<close> exactly when no keyword of the list matches;
  \<open>matchKeywords\<close> applied to one keyword string is that match. In any list, after
  keywords that evaluate to no match, a keyword that evaluates to a match is returned as it
  is configured, and a keyword whose evaluation fails makes the search return \<open>null\<close>.
\<close>

theorem findMatchedKeyword_first_match:
  "(keywordList cfg = map JStr ks \<longrightarrow>
      findMatchedKeyword E cfg text =
        (case find (spec_matches E (caseSensitive cfg) (wholeWordMatch cfg) text) ks of
           None \<Rightarrow> JNull | Some k \<Rightarrow> JStr k)
      \<and> (findMatchedKeyword E cfg text = JNull \<longleftrightarrow>
           (\<forall>k\<in>set ks. \<not> spec_matches E (caseSensitive cfg) (wholeWordMatch cfg) text k)))
   \<and> matchKeywords E text [JStr s] (caseSensitive cfg) (wholeWordMatch cfg)
        = Inr (spec_matches E (caseSensitive cfg) (wholeWordMatch cfg) text s)
   \<and> (keywordList cfg = pre @ v # post
      \<and> (\<forall>j\<in>set pre. matchKeywords E text [j] (caseSensitive cfg) (wholeWordMatch cfg)
                          = Inr False)
      \<longrightarrow> (matchKeywords E text [v] (caseSensitive cfg) (wholeWordMatch cfg) = Inr True
             \<longrightarrow> findMatchedKeyword E cfg text = v)
        \<and> ((\<exists>e. matchKeywords E text [v] (caseSensitive cfg) (wholeWordMatch cfg) = Inl e)
             \<longrightarrow> findMatchedKeyword E cfg text = JNull))"
proof -
  let ?M = "spec_matches E (caseSensitive cfg) (wholeWordMatch cfg) text"
  have strings: "findMatchedKeyword E cfg text =
                   (case find ?M ks of None \<Rightarrow> JNull | Some k \<Rightarrow> JStr k)
                 \<and> (findMatchedKeyword E cfg text = JNull \<longleftrightarrow> (\<forall>k\<in>set ks. \<not> ?M k))"
    if list: "keywordList cfg = map JStr ks"
  proof -
    have m: "keywordMatches E (caseSensitive cfg) (wholeWordMatch cfg) text = ?M"
      by (rule ext) (rule keywordMatches_spec)
    have eq: "findMatchedKeyword E cfg text =
                (case find ?M ks of None \<Rightarrow> JNull | Some k \<Rightarrow> JStr k)"
      by (simp add: findMatchedKeyword_def list findLoop_strings m)
    have "(find ?M ks = None) = (\<forall>k\<in>set ks. \<not> ?M k)"
      by (auto simp: find_None_iff)
    with eq show ?thesis by (auto split: option.splits)
  qed
  have one: "matchKeywords E text [JStr s] (caseSensitive cfg) (wholeWordMatch cfg) = Inr (?M s)"
    by (simp add: matchKeywords_string keywordMatches_spec)
  have mixed: "(matchKeywords E text [v] (caseSensitive cfg) (wholeWordMatch cfg) = Inr True
             \<longrightarrow> findMatchedKeyword E cfg text = v)
        \<and> ((\<exists>e. matchKeywords E text [v] (caseSensitive cfg) (wholeWordMatch cfg) = Inl e)
             \<longrightarrow> findMatchedKeyword E cfg text = JNull)"
    if "keywordList cfg = pre @ v # post"
       "\<forall>j\<in>set pre. matchKeywords E text [j] (caseSensitive cfg) (wholeWordMatch cfg)
                          = Inr False"
    using that by (auto simp: findMatchedKeyword_def findLoop_failure)
  from strings one mixed show ?thesis by blast
qed

lemmas matches_eval = keywordMatches_spec [symmetric] keywordMatches_def searchForm_def
  normalizedString_def engine_eval example_strings kw_stretched_def asc_def

theorem findMatchedKeyword_first_match_witness:
  "findMatchedKeyword arabic_engine
     ((defaultDetection (map JStr [text_late, kw_stretched, kw_delay]))\<lparr>wholeWordMatch := True\<rparr>)
     text_delay_today = JStr kw_stretched
   \<and> findMatchedKeyword arabic_engine
     ((defaultDetection (map JStr [kw_stretched]))\<lparr>wholeWordMatch := True\<rparr>) text_late = JNull
   \<and> findMatchedKeyword arabic_engine (defaultDetection (map JStr [kw_stretched])) text_late
       = JStr kw_stretched
   \<and> findMatchedKeyword arabic_engine (defaultDetection (map JStr [asc ''LATE'']))
       (asc ''too late now'') = JStr (asc ''LATE'')
   \<and> findMatchedKeyword arabic_engine
       ((defaultDetection (map JStr [asc ''LATE'']))\<lparr>caseSensitive := True\<rparr>)
       (asc ''too late now'') = JNull"
proof -
  have a: "\<not> spec_matches arabic_engine False True text_delay_today text_late"
    "spec_matches arabic_engine False True text_delay_today kw_stretched"
    "\<not> spec_matches arabic_engine False True text_late kw_stretched"
    "spec_matches arabic_engine False False text_late kw_stretched"
    by (simp_all add: matches_eval)
  have b: "spec_matches arabic_engine False False (asc ''too late now'') (asc ''LATE'')"
    "\<not> spec_matches arabic_engine True False (asc ''too late now'') (asc ''LATE'')"
    by (simp_all add: matches_eval)
  show ?thesis
    using findMatchedKeyword_first_match
            [of "(defaultDetection (map JStr [text_late, kw_stretched, kw_delay]))
                   \<lparr>wholeWordMatch := True\<rparr>"
                "[text_late, kw_stretched, kw_delay]" arabic_engine text_delay_today]
          findMatchedKeyword_first_match
            [of "(defaultDetection (map JStr [kw_stretched]))\<lparr>wholeWordMatch := True\<rparr>"
                "[kw_stretched]" arabic_engine text_late]
          findMatchedKeyword_first_match
            [of "defaultDetection (map JStr [kw_stretched])" "[kw_stretched]"
                arabic_engine text_late]
          findMatchedKeyword_first_match
            [of "defaultDetection (map JStr [asc ''LATE''])" "[asc ''LATE'']"
                arabic_engine "asc ''too late now''"]
          findMatchedKeyword_first_match
            [of "(defaultDetection (map JStr [asc ''LATE'']))\<lparr>caseSensitive := True\<rparr>"
                "[asc ''LATE'']" arabic_engine "asc ''too late now''"]
          a b
    by (simp add: defaultDetection_def)
qed

text \<open>
  C7 as stated fails for a list that holds a value that is not a string: with the keywords
  \<open>7\<close> and "\<open>kw_delay\<close>" the second keyword matches the text, and the search returns
  \<open>null\<close>, because evaluating the first keyword throws.
\<close>

theorem findMatchedKeyword_null_despite_match_counterexample:
  "spec_matches arabic_engine False False text_delay_today kw_delay
   \<and> matchKeywords arabic_engine text_delay_today [JStr kw_delay] False False = Inr True
   \<and> findMatchedKeyword arabic_engine (defaultDetection [JNum 7, JStr kw_delay])
        text_delay_today = JNull"
proof -
  have a: "spec_matches arabic_engine False False text_delay_today kw_delay"
    by (simp add: matches_eval)
  then have b: "matchKeywords arabic_engine text_delay_today [JStr kw_delay] False False
                  = Inr True"
    by (simp add: matchKeywords_string keywordMatches_spec)
  have "matchKeywords arabic_engine text_delay_today [JNum 7] False False = Inl TypeError"
    by (simp add: matchKeywords_def normalizeArabicText_def keywordToLowerCase_def
          example_strings)
  then have "findMatchedKeyword arabic_engine (defaultDetection [JNum 7, JStr kw_delay])
               text_delay_today = JNull"
    by (simp add: findMatchedKeyword_def defaultDetection_def)
  with a b show ?thesis by simp
qed

text \<open>
  C3, as the code has it. The keyword search never throws: it returns a keyword or
  \<open>null\<close>. Evaluating a keyword that is a string never fails. When evaluating a keyword
  fails after the keywords before it did not match, the search ends there and returns
  \<open>null\<close>, whatever keywords follow: the \<open>catch\<close> is around the whole loop.
\<close>

theorem findMatchedKeyword_failure_ends_search:
  assumes "keywordList cfg = pre @ bad # rest"
      and "\<forall>k\<in>set pre. matchKeywords E text [k] (caseSensitive cfg) (wholeWordMatch cfg) = Inr False"
      and "matchKeywords E text [bad] (caseSensitive cfg) (wholeWordMatch cfg) = Inl e"
  shows "findMatchedKeyword E cfg text = JNull
       \<and> (\<forall>k. \<exists>found. matchKeywords E text [JStr k] (caseSensitive cfg) (wholeWordMatch cfg)
                          = Inr found)"
  using assms by (simp add: findMatchedKeyword_def findLoop_failure matchKeywords_string)

theorem findMatchedKeyword_failure_ends_search_witness:
  "findMatchedKeyword arabic_engine
     (defaultDetection [JStr text_late, JNum 7, JStr kw_delay]) text_delay_today = JNull"
proof -
  have a: "keywordList (defaultDetection [JStr text_late, JNum 7, JStr kw_delay])
             = [JStr text_late] @ JNum 7 # [JStr kw_delay]"
    by (simp add: defaultDetection_def)
  have b: "\<forall>k\<in>set [JStr text_late]. matchKeywords arabic_engine text_delay_today [k]
             (caseSensitive (defaultDetection [JStr text_late, JNum 7, JStr kw_delay]))
             (wholeWordMatch (defaultDetection [JStr text_late, JNum 7, JStr kw_delay]))
           = Inr False"
    by (simp add: defaultDetection_def matchKeywords_string keywordMatches_def searchForm_def
          normalizedString_def engine_eval example_strings)
  have c: "matchKeywords arabic_engine text_delay_today [JNum 7]
             (caseSensitive (defaultDetection [JStr text_late, JNum 7, JStr kw_delay]))
             (wholeWordMatch (defaultDetection [JStr text_late, JNum 7, JStr kw_delay]))
           = Inl TypeError"
    by (simp add: defaultDetection_def matchKeywords_def normalizeArabicText_def
          keywordToLowerCase_def example_strings)
  from findMatchedKeyword_failure_ends_search [OF a b c] show ?thesis by simp
qed

text \<open>
  C3 as stated fails: with the keywords \<open>true\<close> and "\<open>kw_delay\<close>", evaluating the first
  keyword throws, the second keyword matches the text, and the search returns \<open>null\<close>.
\<close>

theorem findMatchedKeyword_continues_counterexample:
  "matchKeywords arabic_engine text_delay_today [JBool True] False False = Inl TypeError
   \<and> matchKeywords arabic_engine text_delay_today [JStr kw_delay] False False = Inr True
   \<and> findMatchedKeyword arabic_engine (defaultDetection [JBool True, JStr kw_delay])
        text_delay_today = JNull"
proof -
  have a: "matchKeywords arabic_engine text_delay_today [JBool True] False False = Inl TypeError"
    by (simp add: matchKeywords_def normalizeArabicText_def keywordToLowerCase_def
          example_strings)
  have b: "matchKeywords arabic_engine text_delay_today [JStr kw_delay] False False = Inr True"
    by (simp add: matchKeywords_string keywordMatches_def searchForm_def normalizedString_def
          engine_eval example_strings)
  have c: "findMatchedKeyword arabic_engine (defaultDetection [JBool True, JStr kw_delay])
             text_delay_today = JNull"
    by (simp add: findMatchedKeyword_def defaultDetection_def a)
  from a b c show ?thesis by simp
qed

text \<open>
  C6. On an engine for which the keyword and the two texts are in NFC and have no upper
  case, and the letter U+0645 is not punctuation: in whole-word mode the keyword matches
  the first text (it stands at the start, before a space) and not the second (it stands
  between two letters); in substring mode it matches both.
\<close>

theorem whole_word_versus_substring:
  assumes "normalizeNFC E kw_delay = kw_delay"
      and "normalizeNFC E text_delay_today = text_delay_today"
      and "normalizeNFC E text_late = text_late"
      and "toLowerCase E kw_delay = kw_delay"
      and "toLowerCase E text_delay_today = text_delay_today"
      and "toLowerCase E text_late = text_late"
      and "\<not> isPunctuation E 0x645"
  shows "matchKeywords E text_delay_today [JStr kw_delay] caseSens True = Inr True
       \<and> matchKeywords E text_late [JStr kw_delay] caseSens True = Inr False
       \<and> matchKeywords E text_delay_today [JStr kw_delay] caseSens False = Inr True
       \<and> matchKeywords E text_late [JStr kw_delay] caseSens False = Inr True"
proof -
  have strip: "stripInvisible kw_delay = kw_delay"
    "stripInvisible text_delay_today = text_delay_today" "stripInvisible text_late = text_late"
    by (simp_all add: stripInvisible_def example_strings)
  have form: "searchForm E caseSens kw_delay = kw_delay"
    "searchForm E caseSens text_delay_today = text_delay_today"
    "searchForm E caseSens text_late = text_late"
    using assms strip
    by (simp_all add: searchForm_def normalizedString_def) (simp_all add: example_strings)
  have cp: "codePoints kw_delay = kw_delay" "codePoints text_delay_today = text_delay_today"
    "codePoints text_late = text_late"
    by (simp_all add: example_strings)
  have ne: "text_delay_today \<noteq> []" "text_late \<noteq> []" by (simp_all add: example_strings)
  have a: "wordScan E kw_delay True text_delay_today"
    by (simp add: example_strings rightOk_def wordBoundary_def isWhiteSpace_def)
  have b: "\<not> wordScan E kw_delay True text_late"
    using assms(7) by (simp add: example_strings wordBoundary_def isWhiteSpace_def)
  have c: "includes_str text_delay_today kw_delay" "includes_str text_late kw_delay"
    by (simp_all add: example_strings)
  show ?thesis
    using a b c ne by (simp add: matchKeywords_string keywordMatches_def form cp)
qed

theorem whole_word_versus_substring_witness:
  "matchKeywords arabic_engine text_delay_today [JStr kw_delay] False True = Inr True
   \<and> matchKeywords arabic_engine text_late [JStr kw_delay] False True = Inr False
   \<and> matchKeywords arabic_engine text_delay_today [JStr kw_delay] False False = Inr True
   \<and> matchKeywords arabic_engine text_late [JStr kw_delay] False False = Inr True"
proof -
  have "normalizeNFC arabic_engine kw_delay = kw_delay"
    "normalizeNFC arabic_engine text_delay_today = text_delay_today"
    "normalizeNFC arabic_engine text_late = text_late"
    "toLowerCase arabic_engine kw_delay = kw_delay"
    "toLowerCase arabic_engine text_delay_today = text_delay_today"
    "toLowerCase arabic_engine text_late = text_late"
    "\<not> isPunctuation arabic_engine 0x645"
    by (simp_all add: engine_eval example_strings)
  then show ?thesis by (rule whole_word_versus_substring)
qed

text \<open>
  C8, as the code has it. Normalizing a second time changes nothing when the first result
  is in NFC, that is when the engine's NFC leaves it as it is.
\<close>

theorem normalizeArabicText_idempotent_if_stable:
  assumes "normalizeArabicText E (JStr s) = JStr y"
      and "normalizeNFC E y = y"
  shows "normalizeArabicText E (normalizeArabicText E (JStr s)) = normalizeArabicText E (JStr s)"
proof -
  from assms(1) have y: "y = normalizedString E s"
    by (simp add: normalizeArabicText_JStr)
  then have "stripInvisible y = y"
    by (simp add: normalizedString_def stripInvisible_idem) (simp add: stripInvisible_def)
  with assms show ?thesis
    by (simp add: normalizeArabicText_JStr) (simp add: normalizedString_def)
qed

theorem normalizeArabicText_idempotent_if_stable_witness:
  "normalizeArabicText arabic_engine (normalizeArabicText arabic_engine (JStr [0x62A, 0x640, 0x623]))
     = normalizeArabicText arabic_engine (JStr [0x62A, 0x640, 0x623])
   \<and> normalizeArabicText arabic_engine (JStr [0x62A, 0x640, 0x623]) = JStr [0x62A, 0x623]"
proof -
  have a: "normalizeArabicText arabic_engine (JStr [0x62A, 0x640, 0x623]) = JStr [0x62A, 0x623]"
    by (simp add: normalizeArabicText_def engine_eval)
  have b: "normalizeNFC arabic_engine [0x62A, 0x623] = [0x62A, 0x623]"
    by (simp add: engine_eval)
  from normalizeArabicText_idempotent_if_stable [OF a b] a show ?thesis by simp
qed

text \<open>
  C8 as stated fails. In alef, tatweel, hamza above (U+0627 U+0640 U+0654) the tatweel is a
  starter between the letter and the mark, so NFC leaves the three characters. The
  normalizer then deletes the tatweel. In what is left, alef and hamza above are adjacent,
  and a second normalization composes them to U+0623.
\<close>

theorem normalizeArabicText_idempotent_counterexample:
  "normalizeArabicText arabic_engine (JStr [0x627, 0x640, 0x654]) = JStr [0x627, 0x654]
   \<and> normalizeArabicText arabic_engine (JStr [0x627, 0x654]) = JStr [0x623]
   \<and> normalizeArabicText arabic_engine (normalizeArabicText arabic_engine (JStr [0x627, 0x640, 0x654]))
       \<noteq> normalizeArabicText arabic_engine (JStr [0x627, 0x640, 0x654])"
  by (simp add: normalizeArabicText_def engine_eval)

section \<open>Duplicate cache\<close>

lemma kept_entry_of_distinct:
  assumes "distinct (map fst entries)"
  shows "map_of (filter keep entries) h =
           Option.bind (map_of entries h) (\<lambda>v. if keep (h, v) then Some v else None)"
  using assms
proof (induction entries)
  case Nil
  show ?case by simp
next
  case (Cons e entries)
  obtain a b where e: "e = (a, b)" by (cases e)
  show ?case
  proof (cases "a = h")
    case True
    from Cons.prems e True have "h \<notin> fst ` set entries" by auto
    then have "map_of (filter keep entries) h = None"
      by (auto simp: map_of_eq_None_iff)
    with True e show ?thesis by simp
  next
    case False
    with Cons e show ?thesis by simp
  qed
qed

lemma lookup_filter:
  "DAList.lookup (DAList.filter keep m) h =
     Option.bind (DAList.lookup m h) (\<lambda>v. if keep (h, v) then Some v else None)"
  by transfer (simp add: kept_entry_of_distinct)

lemma lookup_setHash:
  "DAList.lookup (detectedHashes (setHash h t w)) h' =
     (if h = h' then Some t else DAList.lookup (detectedHashes w) h')"
  by (simp add: setHash_def DAList.lookup_update)

lemma lookup_cleanupOldHashes:
  "DAList.lookup (detectedHashes (cleanupOldHashes cfg c w)) h =
     (if size (detectedHashes w) \<le> MAX_HASH_CACHE_SIZE then DAList.lookup (detectedHashes w) h
      else case DAList.lookup (detectedHashes w) h of
             None \<Rightarrow> None
           | Some v \<Rightarrow> if c - v > duplicateCacheTTL cfg then None else Some v)"
  by (simp add: cleanupOldHashes_def lookup_filter split: option.splits)

lemma startupTime_setHash [simp]: "startupTime (setHash h t w) = startupTime w"
  by (simp add: setHash_def)

lemma startupTime_cleanupOldHashes [simp]: "startupTime (cleanupOldHashes cfg c w) = startupTime w"
  by (simp add: cleanupOldHashes_def)

lemma isDuplicate_verdict:
  "enableDuplicateProtection cfg \<Longrightarrow>
   fst (isDuplicate cfg now nowC w text stamp key) =
     (isHashRecent cfg w (hashText (fallbackFingerprint text stamp)) now
      \<or> (\<exists>k. key = Some k \<and> k \<noteq> []
             \<and> isHashRecent cfg w (hashText (keyFingerprint k stamp text)) now))"
  by (auto simp: isDuplicate_def Let_def split: option.splits)

lemma isDuplicate_true_unchanged:
  "fst (isDuplicate cfg now nowC w text stamp key) \<Longrightarrow>
   snd (isDuplicate cfg now nowC w text stamp key) = w"
  by (auto simp: isDuplicate_def Let_def split: option.splits if_splits)

lemma startupTime_isDuplicate [simp]:
  "startupTime (snd (isDuplicate cfg now nowC w text stamp key)) = startupTime w"
  by (auto simp: isDuplicate_def Let_def split: option.splits)

text \<open>After a verdict "not a duplicate", both fingerprints are absent or stamped \<open>now\<close>.\<close>

lemma isDuplicate_recorded:
  assumes "enableDuplicateProtection cfg"
      and "\<not> fst (isDuplicate cfg now nowC w text stamp key)"
      and "h = hashText (fallbackFingerprint text stamp)
           \<or> (\<exists>k. key = Some k \<and> k \<noteq> [] \<and> h = hashText (keyFingerprint k stamp text))"
  shows "DAList.lookup (detectedHashes (snd (isDuplicate cfg now nowC w text stamp key))) h
           \<in> {None, Some now}"
    and "nowC - now \<le> duplicateCacheTTL cfg \<Longrightarrow>
         DAList.lookup (detectedHashes (snd (isDuplicate cfg now nowC w text stamp key))) h
           = Some now"
  using assms
  by (auto simp: isDuplicate_def Let_def lookup_cleanupOldHashes lookup_setHash
           split: option.splits if_splits)

lemma isHashRecent_lookup:
  "isHashRecent cfg w h t =
     (\<exists>v. DAList.lookup (detectedHashes w) h = Some v \<and> t - v < duplicateCacheTTL cfg)"
  by (auto simp: isHashRecent_def split: option.splits)

lemma isDuplicate_again_within:
  assumes "enableDuplicateProtection cfg"
      and "\<not> fst (isDuplicate cfg t0 c0 w text stamp key)"
      and "c0 - t0 \<le> duplicateCacheTTL cfg"
      and "t1 - t0 < duplicateCacheTTL cfg"
  shows "fst (isDuplicate cfg t1 c1 (snd (isDuplicate cfg t0 c0 w text stamp key)) text stamp key)"
proof -
  have "DAList.lookup (detectedHashes (snd (isDuplicate cfg t0 c0 w text stamp key)))
          (hashText (fallbackFingerprint text stamp)) = Some t0"
    using assms(1-3) by (intro isDuplicate_recorded(2)) auto
  with assms(4) have "isHashRecent cfg (snd (isDuplicate cfg t0 c0 w text stamp key))
          (hashText (fallbackFingerprint text stamp)) t1"
    by (simp add: isHashRecent_lookup)
  with assms(1) show ?thesis by (simp add: isDuplicate_verdict)
qed

lemma isDuplicate_again_expired:
  assumes "enableDuplicateProtection cfg"
      and "\<not> fst (isDuplicate cfg t0 c0 w text stamp key)"
      and "duplicateCacheTTL cfg \<le> t2 - t0"
  shows "\<not> fst (isDuplicate cfg t2 c2 (snd (isDuplicate cfg t0 c0 w text stamp key)) text stamp key)"
proof -
  let ?w1 = "snd (isDuplicate cfg t0 c0 w text stamp key)"
  have r: "\<not> isHashRecent cfg ?w1 h t2"
    if "h = hashText (fallbackFingerprint text stamp)
        \<or> (\<exists>k. key = Some k \<and> k \<noteq> [] \<and> h = hashText (keyFingerprint k stamp text))" for h
  proof -
    have "DAList.lookup (detectedHashes ?w1) h \<in> {None, Some t0}"
      using assms(1,2) that by (rule isDuplicate_recorded(1))
    with assms(3) show ?thesis by (auto simp: isHashRecent_lookup)
  qed
  show ?thesis
    using assms(1) r by (auto simp: isDuplicate_verdict)
qed

section \<open>Handling a message\<close>

lemma startupFloorTime_mono: "a \<le> b \<Longrightarrow> startupFloorTime a \<le> startupFloorTime b"
proof -
  assume ab: "a \<le> b"
  have f: "startupFloorTime t = t div 60000 * 60000" for t
    by (simp add: startupFloorTime_def minus_mod_eq_div_mult)
  from ab have "a div 60000 \<le> b div 60000" by (rule zdiv_mono1) simp
  then show ?thesis by (simp add: f)
qed

lemma isDuplicate_startupTime_update:
  "isDuplicate cfg now nowC (w\<lparr>startupTime := T\<rparr>) text stamp key =
     (fst (isDuplicate cfg now nowC w text stamp key),
      (snd (isDuplicate cfg now nowC w text stamp key))\<lparr>startupTime := T\<rparr>)"
  by (auto simp: isDuplicate_def Let_def isHashRecent_def setHash_def cleanupOldHashes_def
           split: option.splits)

lemma handleMessage_detects_iff:
  "snd (handleMessage E cfg (Some cb) rd w m) \<noteq> None \<longleftrightarrow>
     msgText m \<noteq> [] \<and> isRecentMessage w (nowRecent rd) (timestamp m)
     \<and> \<not> fst (isDuplicate cfg (nowDuplicate rd) (nowCleanup rd) w
                 (msgText m) (timestamp m) (messageKey m))
     \<and> truthy (findMatchedKeyword E cfg (msgText m))
     \<and> \<not> shouldFilterByChat cfg (chatAtFilter rd)"
  by (auto simp: handleMessage_def triggerAlarm_def Let_def split: prod.splits)

lemma handleMessage_detection:
  assumes "handleMessage E cfg cbo rd w m = (w1, Some r)"
  shows "w1 = (snd (isDuplicate cfg (nowDuplicate rd) (nowCleanup rd) w
                  (msgText m) (timestamp m) (messageKey m)))\<lparr>startupTime := nowAlarm rd\<rparr>"
    and "\<exists>cb. cbo = Some cb \<and>
           r = cb \<lparr>keyword = findMatchedKeyword E cfg (msgText m), dataText = msgText m,
                   dataChatName = chatAtAlarm rd, dataTimestamp = nowData rd\<rparr> w1"
  using assms
  by (auto simp: handleMessage_def triggerAlarm_def Let_def
           split: prod.splits if_splits option.splits)

lemma handleMessage_dropped_duplicate:
  "fst (isDuplicate cfg (nowDuplicate rd) (nowCleanup rd) w (msgText m) (timestamp m) (messageKey m))
   \<Longrightarrow> handleMessage E cfg cbo rd w m = (w, None)"
  using isDuplicate_true_unchanged
    [of cfg "nowDuplicate rd" "nowCleanup rd" w "msgText m" "timestamp m" "messageKey m"]
  by (auto simp: handleMessage_def Let_def split: prod.splits)

lemma handleMessage_dropped_old:
  "\<not> isRecentMessage w (nowRecent rd) (timestamp m) \<Longrightarrow> handleMessage E cfg cbo rd w m = (w, None)"
  by (simp add: handleMessage_def)

lemma handleMessage_startupTime:
  "startupTime (fst (handleMessage E cfg cbo rd w m)) = startupTime w
   \<or> startupTime (fst (handleMessage E cfg cbo rd w m)) = nowAlarm rd"
proof -
  obtain dup w1 where eq: "isDuplicate cfg (nowDuplicate rd) (nowCleanup rd) w
          (msgText m) (timestamp m) (messageKey m) = (dup, w1)"
    by (cases "isDuplicate cfg (nowDuplicate rd) (nowCleanup rd) w
          (msgText m) (timestamp m) (messageKey m)")
  have "startupTime (snd (isDuplicate cfg (nowDuplicate rd) (nowCleanup rd) w
          (msgText m) (timestamp m) (messageKey m))) = startupTime w"
    by simp
  with eq have "startupTime w1 = startupTime w" by simp
  with eq show ?thesis
    by (simp add: handleMessage_def triggerAlarm_def Let_def split: option.splits)
qed

lemma fst_processNewMessages_Cons:
  "fst (processNewMessages E cfg cbo w ((rd, m) # rest)) =
     fst (processNewMessages E cfg cbo (fst (handleMessage E cfg cbo rd w m)) rest)"
  by (auto simp: Let_def split: prod.splits)

lemma processNewMessages_startupTime:
  "T \<le> startupTime w \<Longrightarrow> \<forall>(rd, m)\<in>set later. T \<le> nowAlarm rd \<Longrightarrow>
   T \<le> startupTime (fst (processNewMessages E cfg cbo w later))"
proof (induction later arbitrary: w)
  case Nil
  then show ?case by simp
next
  case (Cons step later)
  obtain rd m where step: "step = (rd, m)" by (cases step)
  let ?w1 = "fst (handleMessage E cfg cbo rd w m)"
  have "T \<le> startupTime ?w1"
    using handleMessage_startupTime [of E cfg cbo rd w m] Cons.prems step by auto
  moreover have "\<forall>(rd, m)\<in>set later. T \<le> nowAlarm rd" using Cons.prems by simp
  ultimately have "T \<le> startupTime (fst (processNewMessages E cfg cbo ?w1 later))"
    by (rule Cons.IH)
  then show ?case
    by (simp only: step fst_processNewMessages_Cons)
qed

lemma scenario_detection:
  assumes ts: "timestamp m = Some t" "t \<noteq> 0" "t \<le> now" "startupFloorTime start \<le> t"
      and tx: "msgText m = text_delay_today"
  shows "snd (handleMessage arabic_engine (defaultDetection [JStr kw_delay]) (Some cb)
                (readingsAt now) (initialize (newMessageWatcher start)) m) \<noteq> None"
proof -
  let ?cfg = "defaultDetection [JStr kw_delay]"
  let ?w = "initialize (newMessageWatcher start)"
  have prot: "enableDuplicateProtection ?cfg" by (simp add: defaultDetection_def)
  have "isRecentMessage ?w (nowRecent (readingsAt now)) (timestamp m)"
    using ts by (simp add: isRecentMessage_iff readingsAt_def initialize_def newMessageWatcher_def)
  moreover have "\<not> isHashRecent ?cfg ?w h u" for h u
    by (simp add: isHashRecent_def initialize_def newMessageWatcher_def)
  then have "\<not> fst (isDuplicate ?cfg (nowDuplicate (readingsAt now)) (nowCleanup (readingsAt now)) ?w
                 (msgText m) (timestamp m) (messageKey m))"
    using prot by (simp add: isDuplicate_verdict)
  moreover have "findMatchedKeyword arabic_engine ?cfg text_delay_today = JStr kw_delay"
    by (simp add: findMatchedKeyword_def defaultDetection_def matchKeywords_string
          keywordMatches_def searchForm_def normalizedString_def engine_eval example_strings)
  then have "truthy (findMatchedKeyword arabic_engine ?cfg (msgText m))"
    by (simp add: tx kw_delay_def)
  moreover have "\<not> shouldFilterByChat ?cfg (chatAtFilter (readingsAt now))"
    by (simp add: shouldFilterByChat_def defaultDetection_def defaultChatFilter_def)
  moreover have "msgText m \<noteq> []" by (simp add: tx text_delay_today_def)
  ultimately show ?thesis by (simp only: handleMessage_detects_iff) simp
qed

lemma detection_pair:
  "snd (handleMessage E cfg cbo rd w m) \<noteq> None \<Longrightarrow>
   \<exists>r. handleMessage E cfg cbo rd w m = (fst (handleMessage E cfg cbo rd w m), Some r)"
  by (cases "handleMessage E cfg cbo rd w m") auto

lemma scenario_delay_detection:
  "snd (handleMessage arabic_engine (defaultDetection [JStr kw_delay]) (Some reportCallback)
          (readingsAt 185000) (initialize (newMessageWatcher 60000)) delay_candidate) \<noteq> None"
  by (rule scenario_detection [where t = 120000])
     (simp_all add: delay_candidate_def startupFloorTime_def)

lemma scenario_fresh_detection:
  "snd (handleMessage arabic_engine (defaultDetection [JStr kw_delay]) (Some reportCallback)
          (readingsAt 185000) (initialize (newMessageWatcher 60000)) fresh_candidate) \<noteq> None"
  by (rule scenario_detection [where t = 180000])
     (simp_all add: fresh_candidate_def startupFloorTime_def)

lemma scenario_watermark:
  "snd (handleMessage E cfg cbo rd w m) \<noteq> None \<Longrightarrow>
   startupTime (fst (handleMessage E cfg cbo rd w m)) = nowAlarm rd"
proof -
  assume a: "snd (handleMessage E cfg cbo rd w m) \<noteq> None"
  from detection_pair [OF a] obtain r where
    "handleMessage E cfg cbo rd w m = (fst (handleMessage E cfg cbo rd w m), Some r)" ..
  from handleMessage_detection(1) [OF this] show ?thesis by simp
qed

section \<open>The watermark\<close>

text \<open>
  C1, as the code has it. When a message is detected, \<open>startupTime\<close> is set to the reading
  of the clock in \<open>_triggerAlarm\<close> and the callback is called with the watcher in that
  state. From then on, while the clock does not go back, the recency filter accepts no
  timestamp below that reading floored to the minute, whatever messages are handled later.
\<close>

theorem watermark_advances_on_detection:
  assumes "handleMessage E cfg (Some cb) rd w m = (w1, Some r)"
  shows "startupTime w1 = nowAlarm rd
       \<and> (\<exists>d. r = cb d w1)
       \<and> ((\<forall>(rd', m')\<in>set later. nowAlarm rd \<le> nowAlarm rd') \<longrightarrow>
           (\<forall>now ts. isRecentMessage (fst (processNewMessages E cfg cbo w1 later)) now (Some ts)
                        \<longrightarrow> startupFloorTime (nowAlarm rd) \<le> ts))"
proof -
  from handleMessage_detection [OF assms] have w1: "startupTime w1 = nowAlarm rd"
    and r: "\<exists>d. r = cb d w1" by auto
  have "startupFloorTime (nowAlarm rd) \<le> ts"
    if later: "\<forall>(rd', m')\<in>set later. nowAlarm rd \<le> nowAlarm rd'"
      and acc: "isRecentMessage (fst (processNewMessages E cfg cbo w1 later)) now (Some ts)"
    for now ts
  proof -
    have "nowAlarm rd \<le> startupTime (fst (processNewMessages E cfg cbo w1 later))"
      using w1 later by (intro processNewMessages_startupTime) auto
    then have "startupFloorTime (nowAlarm rd)
                 \<le> startupFloorTime (startupTime (fst (processNewMessages E cfg cbo w1 later)))"
      by (rule startupFloorTime_mono)
    with acc show ?thesis by (auto simp: isRecentMessage_iff)
  qed
  with w1 r show ?thesis by blast
qed

theorem watermark_advances_on_detection_witness:
  "startupTime (fst (handleMessage arabic_engine (defaultDetection [JStr kw_delay])
          (Some reportCallback) (readingsAt 185000) (initialize (newMessageWatcher 60000))
          delay_candidate)) = 185000
   \<and> \<not> isRecentMessage
        (fst (processNewMessages arabic_engine (defaultDetection [JStr kw_delay])
               (Some reportCallback)
               (fst (handleMessage arabic_engine (defaultDetection [JStr kw_delay])
                  (Some reportCallback) (readingsAt 185000)
                  (initialize (newMessageWatcher 60000)) delay_candidate))
               [(readingsAt 190000, fresh_candidate)]))
        200000 (Some 120000)"
proof -
  let ?H = "handleMessage arabic_engine (defaultDetection [JStr kw_delay])
          (Some reportCallback) (readingsAt 185000) (initialize (newMessageWatcher 60000))
          delay_candidate"
  from detection_pair [OF scenario_delay_detection] obtain r where h: "?H = (fst ?H, Some r)" ..
  note w = watermark_advances_on_detection
             [OF h, of "[(readingsAt 190000, fresh_candidate)]" "Some reportCallback"]
  from w have a: "startupTime (fst ?H) = 185000" by (simp add: readingsAt_def)
  from w have "\<forall>now ts. isRecentMessage
        (fst (processNewMessages arabic_engine (defaultDetection [JStr kw_delay])
               (Some reportCallback) (fst ?H) [(readingsAt 190000, fresh_candidate)]))
        now (Some ts) \<longrightarrow> startupFloorTime (nowAlarm (readingsAt 185000)) \<le> ts"
    by (simp add: readingsAt_def)
  then have "isRecentMessage
        (fst (processNewMessages arabic_engine (defaultDetection [JStr kw_delay])
               (Some reportCallback) (fst ?H) [(readingsAt 190000, fresh_candidate)]))
        200000 (Some 120000) \<longrightarrow> startupFloorTime (nowAlarm (readingsAt 185000)) \<le> 120000"
    by blast
  then have "\<not> isRecentMessage
        (fst (processNewMessages arabic_engine (defaultDetection [JStr kw_delay])
               (Some reportCallback) (fst ?H) [(readingsAt 190000, fresh_candidate)]))
        200000 (Some 120000)"
    by (simp add: readingsAt_def startupFloorTime_def)
  with a show ?thesis by simp
qed

text \<open>
  C1 as stated fails: the filter compares with the watermark floored to the minute. After a
  detection at 185000 (3 minutes and 5 seconds), a candidate stamped 180000, before the
  alarm fired, is accepted, and so is one stamped with the moment of the alarm itself.
\<close>

theorem watermark_accepts_same_minute_counterexample:
  "snd (handleMessage arabic_engine (defaultDetection [JStr kw_delay]) (Some reportCallback)
          (readingsAt 185000) (initialize (newMessageWatcher 60000)) delay_candidate) \<noteq> None
   \<and> startupTime (fst (handleMessage arabic_engine (defaultDetection [JStr kw_delay])
          (Some reportCallback) (readingsAt 185000) (initialize (newMessageWatcher 60000))
          delay_candidate)) = 185000
   \<and> isRecentMessage (fst (handleMessage arabic_engine (defaultDetection [JStr kw_delay])
          (Some reportCallback) (readingsAt 185000) (initialize (newMessageWatcher 60000))
          delay_candidate)) 200000 (Some 180000)
   \<and> isRecentMessage (fst (handleMessage arabic_engine (defaultDetection [JStr kw_delay])
          (Some reportCallback) (readingsAt 185000) (initialize (newMessageWatcher 60000))
          delay_candidate)) 200000 (Some 185000)"
proof -
  have "startupTime (fst (handleMessage arabic_engine (defaultDetection [JStr kw_delay])
          (Some reportCallback) (readingsAt 185000) (initialize (newMessageWatcher 60000))
          delay_candidate)) = 185000"
    using scenario_watermark [OF scenario_delay_detection] by (simp add: readingsAt_def)
  then show ?thesis
    using scenario_delay_detection by (simp add: isRecentMessage_iff startupFloorTime_def)
qed

section \<open>The cache under other traffic\<close>

lemma isDuplicate_verdict_fingerprints:
  "enableDuplicateProtection cfg \<Longrightarrow>
   fst (isDuplicate cfg now nowC w (msgText m) (timestamp m) (messageKey m)) =
     (\<exists>h\<in>fingerprints m. isHashRecent cfg w h now)"
  by (auto simp: isDuplicate_verdict fingerprints_def split: option.splits if_splits)

lemma isDuplicate_lookup_other:
  assumes "h \<notin> fingerprints m"
  shows "DAList.lookup (detectedHashes (snd (isDuplicate cfg now nowC w
            (msgText m) (timestamp m) (messageKey m)))) h
           \<in> {None, DAList.lookup (detectedHashes w) h}"
    and "(\<forall>v. DAList.lookup (detectedHashes w) h = Some v \<longrightarrow> nowC - v \<le> duplicateCacheTTL cfg)
         \<Longrightarrow> DAList.lookup (detectedHashes (snd (isDuplicate cfg now nowC w
            (msgText m) (timestamp m) (messageKey m)))) h
           = DAList.lookup (detectedHashes w) h"
  using assms
  by (auto simp: isDuplicate_def Let_def fingerprints_def lookup_cleanupOldHashes lookup_setHash
           split: option.splits if_splits)

lemma detectedHashes_handleMessage:
  "detectedHashes (fst (handleMessage E cfg cbo rd w m)) = detectedHashes w
   \<or> detectedHashes (fst (handleMessage E cfg cbo rd w m))
       = detectedHashes (snd (isDuplicate cfg (nowDuplicate rd) (nowCleanup rd) w
                                (msgText m) (timestamp m) (messageKey m)))"
  by (auto simp: handleMessage_def triggerAlarm_def Let_def split: prod.splits option.splits)

lemma handleMessage_lookup_other:
  assumes "h \<notin> fingerprints m"
  shows "DAList.lookup (detectedHashes (fst (handleMessage E cfg cbo rd w m))) h
           \<in> {None, DAList.lookup (detectedHashes w) h}"
    and "(\<forall>v. DAList.lookup (detectedHashes w) h = Some v
              \<longrightarrow> nowCleanup rd - v \<le> duplicateCacheTTL cfg)
         \<Longrightarrow> DAList.lookup (detectedHashes (fst (handleMessage E cfg cbo rd w m))) h
           = DAList.lookup (detectedHashes w) h"
  using detectedHashes_handleMessage [of E cfg cbo rd w m]
        isDuplicate_lookup_other(1) [OF assms, of cfg "nowDuplicate rd" "nowCleanup rd" w]
        isDuplicate_lookup_other(2) [OF assms, of w "nowCleanup rd" cfg "nowDuplicate rd"]
  by auto

lemma processNewMessages_lookup_absent_or_kept:
  assumes "\<forall>(rd, m')\<in>set traffic. h \<notin> fingerprints m'"
      and "DAList.lookup (detectedHashes w) h \<in> {None, Some t0}"
  shows "DAList.lookup (detectedHashes (fst (processNewMessages E cfg cbo w traffic))) h
           \<in> {None, Some t0}"
  using assms
proof (induction traffic arbitrary: w)
  case Nil
  then show ?case by simp
next
  case (Cons step traffic)
  obtain rd m' where step: "step = (rd, m')" by (cases step)
  let ?w1 = "fst (handleMessage E cfg cbo rd w m')"
  from Cons.prems step have "h \<notin> fingerprints m'" by simp
  from handleMessage_lookup_other(1) [OF this, of E cfg cbo rd w] Cons.prems(2)
  have "DAList.lookup (detectedHashes ?w1) h \<in> {None, Some t0}" by auto
  moreover from Cons.prems have "\<forall>(rd, m')\<in>set traffic. h \<notin> fingerprints m'" by simp
  ultimately have "DAList.lookup (detectedHashes (fst (processNewMessages E cfg cbo ?w1 traffic))) h
           \<in> {None, Some t0}"
    by (intro Cons.IH)
  then show ?case by (simp only: step fst_processNewMessages_Cons)
qed

lemma processNewMessages_lookup_kept:
  assumes "\<forall>(rd, m')\<in>set traffic. h \<notin> fingerprints m'
                \<and> nowCleanup rd - t0 \<le> duplicateCacheTTL cfg"
      and "DAList.lookup (detectedHashes w) h = Some t0"
  shows "DAList.lookup (detectedHashes (fst (processNewMessages E cfg cbo w traffic))) h = Some t0"
  using assms
proof (induction traffic arbitrary: w)
  case Nil
  then show ?case by simp
next
  case (Cons step traffic)
  obtain rd m' where step: "step = (rd, m')" by (cases step)
  let ?w1 = "fst (handleMessage E cfg cbo rd w m')"
  from Cons.prems step have a: "h \<notin> fingerprints m'"
    and b: "nowCleanup rd - t0 \<le> duplicateCacheTTL cfg" by simp_all
  from b Cons.prems(2)
  have "\<forall>v. DAList.lookup (detectedHashes w) h = Some v
              \<longrightarrow> nowCleanup rd - v \<le> duplicateCacheTTL cfg" by simp
  from handleMessage_lookup_other(2) [OF a this] Cons.prems(2)
  have "DAList.lookup (detectedHashes ?w1) h = Some t0" by simp
  moreover from Cons.prems have "\<forall>(rd, m')\<in>set traffic. h \<notin> fingerprints m'
                \<and> nowCleanup rd - t0 \<le> duplicateCacheTTL cfg" by simp
  ultimately have "DAList.lookup (detectedHashes (fst (processNewMessages E cfg cbo ?w1 traffic))) h
           = Some t0"
    by (intro Cons.IH)
  then show ?case by (simp only: step fst_processNewMessages_Cons)
qed

lemma fst_processNewMessages_append:
  "fst (processNewMessages E cfg cbo w (xs @ ys)) =
     fst (processNewMessages E cfg cbo (fst (processNewMessages E cfg cbo w xs)) ys)"
proof (induction xs arbitrary: w)
  case Nil
  show ?case by simp
next
  case (Cons step xs)
  obtain rd m where step: "step = (rd, m)" by (cases step)
  show ?case
    using Cons.IH [of "fst (handleMessage E cfg cbo rd w m)"]
    by (simp only: step append_Cons fst_processNewMessages_Cons)
qed

lemma first_detection_recorded:
  assumes prot: "enableDuplicateProtection cfg"
      and first: "handleMessage E cfg cbo rd1 w0 m = (w1, Some r1)"
      and h: "h \<in> fingerprints m"
  shows "DAList.lookup (detectedHashes w1) h \<in> {None, Some (nowDuplicate rd1)}"
    and "nowCleanup rd1 - nowDuplicate rd1 \<le> duplicateCacheTTL cfg \<Longrightarrow>
         DAList.lookup (detectedHashes w1) h = Some (nowDuplicate rd1)"
proof -
  let ?D0 = "isDuplicate cfg (nowDuplicate rd1) (nowCleanup rd1) w0
               (msgText m) (timestamp m) (messageKey m)"
  have w1: "w1 = (snd ?D0)\<lparr>startupTime := nowAlarm rd1\<rparr>"
    using handleMessage_detection(1) [OF first] .
  have nodup: "\<not> fst ?D0"
    using first by (auto simp: handleMessage_def Let_def split: prod.splits if_splits)
  from h have h': "h = hashText (fallbackFingerprint (msgText m) (timestamp m))
           \<or> (\<exists>k. messageKey m = Some k \<and> k \<noteq> []
                  \<and> h = hashText (keyFingerprint k (timestamp m) (msgText m)))"
    by (auto simp: fingerprints_def split: option.splits if_splits)
  show "DAList.lookup (detectedHashes w1) h \<in> {None, Some (nowDuplicate rd1)}"
    using isDuplicate_recorded(1) [OF prot nodup h'] by (simp add: w1)
  show "DAList.lookup (detectedHashes w1) h = Some (nowDuplicate rd1)"
    if "nowCleanup rd1 - nowDuplicate rd1 \<le> duplicateCacheTTL cfg"
    using isDuplicate_recorded(2) [OF prot nodup h' that] by (simp add: w1)
qed

lemmas hash_eval = hashText_def fallbackFingerprint_def keyFingerprint_def stampString_def
  numToString_def asc_def hashStep_def toStringRadix.simps digitUnit_def

lemma fingerprints_fresh_candidate:
  "fingerprints fresh_candidate = {asc ''1d31eddd'', asc ''724a60ba''}"
  by (simp add: fingerprints_def fresh_candidate_def text_delay_today_def hash_eval)

lemma fingerprints_hello_message: "fingerprints hello_message = {asc ''7b309111''}"
  by (simp add: fingerprints_def hello_message_def hash_eval)

lemma fingerprints_later_message: "fingerprints later_message = {asc ''13d200b3''}"
  by (simp add: fingerprints_def later_message_def kw_delay_def hash_eval)

section \<open>Duplicate suppression\<close>

text \<open>
  C5, as the code has it. With duplicate protection on, let a first hand-in of a candidate
  be detected. Other messages may be handled afterwards, none of them sharing a fingerprint
  with the candidate. Handing the candidate in again within the TTL of its recording, the
  clock not having gone back, yields no detection and leaves the watcher as it is. Handing
  it in once the TTL has expired yields a second detection exactly when the candidate
  passes the recency filter against the watermark as it stands then, and the chat filter.
  The watermark is the moment of the latest detection: the first detection sets it to its
  own moment, and a detection of another message in between moves it on. A candidate is a
  duplicate exactly when its text fingerprint or, with a message key, its key fingerprint
  was recorded less than the TTL ago.
\<close>

theorem duplicate_suppression_and_expiry:
  assumes prot: "enableDuplicateProtection cfg"
      and first: "handleMessage E cfg (Some cb) rd1 w0 m = (w1, Some r1)"
  shows "((\<forall>(rd, m')\<in>set mid1. fingerprints m' \<inter> fingerprints m = {}
                                 \<and> nowCleanup rd \<le> nowDuplicate rd2)
          \<and> nowCleanup rd1 \<le> nowDuplicate rd2
          \<and> nowDuplicate rd2 - nowDuplicate rd1 < duplicateCacheTTL cfg
          \<longrightarrow> handleMessage E cfg (Some cb) rd2
                 (fst (processNewMessages E cfg (Some cb) w1 mid1)) m
               = (fst (processNewMessages E cfg (Some cb) w1 mid1), None))
       \<and> ((\<forall>(rd, m')\<in>set mid. fingerprints m' \<inter> fingerprints m = {})
          \<and> duplicateCacheTTL cfg \<le> nowDuplicate rd3 - nowDuplicate rd1
          \<longrightarrow> (snd (handleMessage E cfg (Some cb) rd3
                       (fst (processNewMessages E cfg (Some cb) w1 mid)) m) \<noteq> None)
               = (isRecentMessage (fst (processNewMessages E cfg (Some cb) w1 mid))
                    (nowRecent rd3) (timestamp m)
                  \<and> \<not> shouldFilterByChat cfg (chatAtFilter rd3)))
       \<and> startupTime w1 = nowAlarm rd1
       \<and> (\<forall>w now nowC text stamp key.
            fst (isDuplicate cfg now nowC w text stamp key) =
              (isHashRecent cfg w (hashText (fallbackFingerprint text stamp)) now
               \<or> (\<exists>k. key = Some k \<and> k \<noteq> []
                      \<and> isHashRecent cfg w (hashText (keyFingerprint k stamp text)) now)))"
proof -
  let ?t0 = "nowDuplicate rd1"
  let ?ttl = "duplicateCacheTTL cfg"
  have "snd (handleMessage E cfg (Some cb) rd1 w0 m) \<noteq> None" using first by simp
  then have all: "msgText m \<noteq> [] \<and> isRecentMessage w0 (nowRecent rd1) (timestamp m)
     \<and> \<not> fst (isDuplicate cfg (nowDuplicate rd1) (nowCleanup rd1) w0
                 (msgText m) (timestamp m) (messageKey m))
     \<and> truthy (findMatchedKeyword E cfg (msgText m))
     \<and> \<not> shouldFilterByChat cfg (chatAtFilter rd1)"
    unfolding handleMessage_detects_iff .
  from all have nonempty: "msgText m \<noteq> []" by blast
  from all have kw: "truthy (findMatchedKeyword E cfg (msgText m))" by blast
  have own: "hashText (fallbackFingerprint (msgText m) (timestamp m)) \<in> fingerprints m"
    by (simp add: fingerprints_def)
  have second: "handleMessage E cfg (Some cb) rd2
                 (fst (processNewMessages E cfg (Some cb) w1 mid1)) m
               = (fst (processNewMessages E cfg (Some cb) w1 mid1), None)"
    if quiet: "\<forall>(rd, m')\<in>set mid1. fingerprints m' \<inter> fingerprints m = {}
                                 \<and> nowCleanup rd \<le> nowDuplicate rd2"
      and clock: "nowCleanup rd1 \<le> nowDuplicate rd2"
      and within: "nowDuplicate rd2 - ?t0 < ?ttl"
  proof -
    let ?h = "hashText (fallbackFingerprint (msgText m) (timestamp m))"
    let ?w2 = "fst (processNewMessages E cfg (Some cb) w1 mid1)"
    from clock within have "nowCleanup rd1 - ?t0 \<le> ?ttl" by simp
    then have "DAList.lookup (detectedHashes w1) ?h = Some ?t0"
      using first_detection_recorded(2) [OF prot first own] by simp
    moreover have "\<forall>(rd, m')\<in>set mid1. ?h \<notin> fingerprints m'
                \<and> nowCleanup rd - ?t0 \<le> ?ttl"
      using quiet own within by fastforce
    ultimately have "DAList.lookup (detectedHashes ?w2) ?h = Some ?t0"
      by (intro processNewMessages_lookup_kept)
    with within have "isHashRecent cfg ?w2 ?h (nowDuplicate rd2)"
      by (simp add: isHashRecent_lookup)
    with own have "fst (isDuplicate cfg (nowDuplicate rd2) (nowCleanup rd2) ?w2
                     (msgText m) (timestamp m) (messageKey m))"
      using prot by (auto simp: isDuplicate_verdict_fingerprints)
    then show ?thesis by (rule handleMessage_dropped_duplicate)
  qed
  have third: "(snd (handleMessage E cfg (Some cb) rd3
                       (fst (processNewMessages E cfg (Some cb) w1 mid)) m) \<noteq> None)
               = (isRecentMessage (fst (processNewMessages E cfg (Some cb) w1 mid))
                    (nowRecent rd3) (timestamp m)
                  \<and> \<not> shouldFilterByChat cfg (chatAtFilter rd3))"
    if quiet: "\<forall>(rd, m')\<in>set mid. fingerprints m' \<inter> fingerprints m = {}"
      and expired: "?ttl \<le> nowDuplicate rd3 - ?t0"
  proof -
    let ?w3 = "fst (processNewMessages E cfg (Some cb) w1 mid)"
    have "\<not> isHashRecent cfg ?w3 h (nowDuplicate rd3)" if h: "h \<in> fingerprints m" for h
    proof -
      have "DAList.lookup (detectedHashes w1) h \<in> {None, Some ?t0}"
        using prot first h by (rule first_detection_recorded(1))
      moreover have "\<forall>(rd, m')\<in>set mid. h \<notin> fingerprints m'"
        using quiet h by fastforce
      ultimately have "DAList.lookup (detectedHashes ?w3) h \<in> {None, Some ?t0}"
        by (intro processNewMessages_lookup_absent_or_kept)
      with expired show ?thesis by (auto simp: isHashRecent_lookup)
    qed
    then have "\<not> fst (isDuplicate cfg (nowDuplicate rd3) (nowCleanup rd3) ?w3
                     (msgText m) (timestamp m) (messageKey m))"
      using prot by (simp add: isDuplicate_verdict_fingerprints)
    with nonempty kw show ?thesis unfolding handleMessage_detects_iff by simp
  qed
  have mark: "startupTime w1 = nowAlarm rd1"
    using handleMessage_detection(1) [OF first] by simp
  from second third mark prot show ?thesis
    by (simp add: isDuplicate_verdict)
qed


lemma handleMessage_no_keyword:
  "\<not> truthy (findMatchedKeyword E cfg (msgText m)) \<Longrightarrow>
   startupTime (fst (handleMessage E cfg cbo rd w m)) = startupTime w"
proof -
  assume nk: "\<not> truthy (findMatchedKeyword E cfg (msgText m))"
  obtain dup w1 where eq: "isDuplicate cfg (nowDuplicate rd) (nowCleanup rd) w
          (msgText m) (timestamp m) (messageKey m) = (dup, w1)"
    by (cases "isDuplicate cfg (nowDuplicate rd) (nowCleanup rd) w
          (msgText m) (timestamp m) (messageKey m)")
  have "startupTime (snd (isDuplicate cfg (nowDuplicate rd) (nowCleanup rd) w
          (msgText m) (timestamp m) (messageKey m))) = startupTime w"
    by simp
  with eq have "startupTime w1 = startupTime w" by simp
  with eq nk show ?thesis by (simp add: handleMessage_def Let_def)
qed

lemma processNewMessages_lookup_absent:
  assumes "\<forall>(rd, m')\<in>set traffic. h \<notin> fingerprints m'"
      and "DAList.lookup (detectedHashes w) h = None"
  shows "DAList.lookup (detectedHashes (fst (processNewMessages E cfg cbo w traffic))) h = None"
proof -
  from assms(2) have "DAList.lookup (detectedHashes w) h \<in> {None, Some 0}" by simp
  from processNewMessages_lookup_absent_or_kept [OF assms(1) this]
  have a: "DAList.lookup (detectedHashes (fst (processNewMessages E cfg cbo w traffic))) h
             \<in> {None, Some 0}" .
  from assms(2) have "DAList.lookup (detectedHashes w) h \<in> {None, Some 1}" by simp
  from processNewMessages_lookup_absent_or_kept [OF assms(1) this]
  have "DAList.lookup (detectedHashes (fst (processNewMessages E cfg cbo w traffic))) h
             \<in> {None, Some 1}" .
  with a show ?thesis by auto
qed

lemma fst_processNewMessages_single:
  "fst (processNewMessages E cfg cbo w [(rd, m)]) = fst (handleMessage E cfg cbo rd w m)"
  by (cases "handleMessage E cfg cbo rd w m") simp

lemma scenario_quiet:
  "fingerprints hello_message \<inter> fingerprints fresh_candidate = {}"
  "fingerprints later_message \<inter> fingerprints fresh_candidate = {}"
  "fingerprints later_message \<inter> fingerprints hello_message = {}"
  by (simp_all add: fingerprints_fresh_candidate fingerprints_hello_message
        fingerprints_later_message asc_def)

lemma scenario_keywords:
  "findMatchedKeyword arabic_engine (defaultDetection [JStr kw_delay]) (asc ''hello'') = JNull"
  "findMatchedKeyword arabic_engine (defaultDetection [JStr kw_delay]) kw_delay = JStr kw_delay"
  by (simp_all add: findMatchedKeyword_def defaultDetection_def matchKeywords_string
        keywordMatches_def searchForm_def normalizedString_def engine_eval example_strings
        asc_def)

theorem duplicate_suppression_and_expiry_witness:
  "snd (handleMessage arabic_engine (defaultDetection [JStr kw_delay]) (Some reportCallback)
          (readingsAt 185000) (initialize (newMessageWatcher 60000)) fresh_candidate) \<noteq> None
   \<and> handleMessage arabic_engine (defaultDetection [JStr kw_delay]) (Some reportCallback)
        (readingsAt 186000)
        (fst (processNewMessages arabic_engine (defaultDetection [JStr kw_delay])
           (Some reportCallback)
           (fst (handleMessage arabic_engine (defaultDetection [JStr kw_delay])
              (Some reportCallback) (readingsAt 185000) (initialize (newMessageWatcher 60000))
              fresh_candidate))
           [(readingsAt 185500, hello_message)]))
        fresh_candidate
       = (fst (processNewMessages arabic_engine (defaultDetection [JStr kw_delay])
           (Some reportCallback)
           (fst (handleMessage arabic_engine (defaultDetection [JStr kw_delay])
              (Some reportCallback) (readingsAt 185000) (initialize (newMessageWatcher 60000))
              fresh_candidate))
           [(readingsAt 185500, hello_message)]), None)
   \<and> snd (handleMessage arabic_engine (defaultDetection [JStr kw_delay]) (Some reportCallback)
        (readingsAt 3785000)
        (fst (processNewMessages arabic_engine (defaultDetection [JStr kw_delay])
           (Some reportCallback)
           (fst (handleMessage arabic_engine (defaultDetection [JStr kw_delay])
              (Some reportCallback) (readingsAt 185000) (initialize (newMessageWatcher 60000))
              fresh_candidate))
           [(readingsAt 185500, hello_message)]))
        fresh_candidate) \<noteq> None
   \<and> snd (handleMessage arabic_engine (defaultDetection [JStr kw_delay]) (Some reportCallback)
        (readingsAt 3790000)
        (fst (processNewMessages arabic_engine (defaultDetection [JStr kw_delay])
           (Some reportCallback)
           (fst (handleMessage arabic_engine (defaultDetection [JStr kw_delay])
              (Some reportCallback) (readingsAt 185000) (initialize (newMessageWatcher 60000))
              fresh_candidate))
           [(readingsAt 185500, hello_message), (readingsAt 3786000, later_message)]))
        fresh_candidate) = None"
proof -
  let ?cfg = "defaultDetection [JStr kw_delay]"
  let ?cb = "Some reportCallback"
  let ?w0 = "initialize (newMessageWatcher 60000)"
  let ?H = "handleMessage arabic_engine ?cfg ?cb (readingsAt 185000) ?w0 fresh_candidate"
  let ?run = "processNewMessages arabic_engine ?cfg ?cb"
  let ?w2 = "fst (?run (fst ?H) [(readingsAt 185500, hello_message)])"
  let ?w4 = "fst (?run (fst ?H)
                [(readingsAt 185500, hello_message), (readingsAt 3786000, later_message)])"
  from detection_pair [OF scenario_fresh_detection] obtain r where h: "?H = (fst ?H, Some r)" ..
  have prot: "enableDuplicateProtection ?cfg" by (simp add: defaultDetection_def)
  have ttl: "duplicateCacheTTL ?cfg = 3600000" by (simp add: defaultDetection_def)
  have clocks: "nowDuplicate (readingsAt t) = t" "nowCleanup (readingsAt t) = t"
    "nowRecent (readingsAt t) = t" "nowAlarm (readingsAt t) = t" for t
    by (simp_all add: readingsAt_def)
  have chat: "\<not> shouldFilterByChat ?cfg (chatAtFilter (readingsAt t))" for t
    by (simp add: shouldFilterByChat_def defaultDetection_def defaultChatFilter_def)
  have stamp: "timestamp fresh_candidate = Some 180000" by (simp add: fresh_candidate_def)
  note t = duplicate_suppression_and_expiry [OF prot h]
  from t have mark1: "startupTime (fst ?H) = 185000" by (simp add: clocks)
  \<comment> \<open>a message without the keyword is handled in between\<close>
  have w2: "?w2 = fst (handleMessage arabic_engine ?cfg ?cb (readingsAt 185500) (fst ?H)
                        hello_message)"
    by (rule fst_processNewMessages_single)
  have "\<not> truthy (findMatchedKeyword arabic_engine ?cfg (msgText hello_message))"
    by (simp add: hello_message_def scenario_keywords)
  then have "startupTime (fst (handleMessage arabic_engine ?cfg ?cb (readingsAt 185500)
                 (fst ?H) hello_message)) = startupTime (fst ?H)"
    by (rule handleMessage_no_keyword)
  with w2 mark1 have mark2: "startupTime ?w2 = 185000"
    by (simp del: processNewMessages.simps)
  have second: "handleMessage arabic_engine ?cfg ?cb (readingsAt 186000) ?w2 fresh_candidate
                  = (?w2, None)"
    using t [of "[(readingsAt 185500, hello_message)]" "readingsAt 186000"]
    by (simp add: clocks ttl scenario_quiet del: processNewMessages.simps)
  have rec2: "isRecentMessage ?w2 (nowRecent (readingsAt 3785000)) (timestamp fresh_candidate)"
    by (simp add: isRecentMessage_iff mark2 stamp clocks startupFloorTime_def
          del: processNewMessages.simps)
  have third: "snd (handleMessage arabic_engine ?cfg ?cb (readingsAt 3785000) ?w2
                      fresh_candidate) \<noteq> None"
    using t [of "[]" "readingsAt 0" "[(readingsAt 185500, hello_message)]" "readingsAt 3785000"]
      rec2 chat
    by (simp add: clocks ttl scenario_quiet del: processNewMessages.simps)
  \<comment> \<open>another message is detected in between and moves the watermark\<close>
  have w4: "?w4 = fst (handleMessage arabic_engine ?cfg ?cb (readingsAt 3786000) ?w2
                        later_message)"
    by (simp only: fst_processNewMessages_Cons processNewMessages.simps(1) fst_conv)
  have w2': "?w2 = fst (?run ?w0 [(readingsAt 185000, fresh_candidate),
                                   (readingsAt 185500, hello_message)])"
    by (simp only: fst_processNewMessages_Cons)
  have "DAList.lookup (detectedHashes ?w2) x = None" if "x \<in> fingerprints later_message" for x
  proof -
    have "\<forall>(rd, m')\<in>set [(readingsAt 185000, fresh_candidate),
                              (readingsAt 185500, hello_message)]. x \<notin> fingerprints m'"
      using that scenario_quiet by (auto simp del: processNewMessages.simps)
    moreover have "DAList.lookup (detectedHashes ?w0) x = None"
      by (simp add: initialize_def newMessageWatcher_def)
    ultimately show ?thesis
      unfolding w2' by (rule processNewMessages_lookup_absent)
  qed
  then have "\<not> fst (isDuplicate ?cfg (nowDuplicate (readingsAt 3786000))
               (nowCleanup (readingsAt 3786000)) ?w2 (msgText later_message)
               (timestamp later_message) (messageKey later_message))"
    using prot by (simp add: isDuplicate_verdict_fingerprints isHashRecent_lookup
                      del: processNewMessages.simps)
  moreover have "isRecentMessage ?w2 (nowRecent (readingsAt 3786000)) (timestamp later_message)"
    by (simp add: isRecentMessage_iff mark2 later_message_def clocks startupFloorTime_def
          del: processNewMessages.simps)
  moreover have "truthy (findMatchedKeyword arabic_engine ?cfg (msgText later_message))"
    by (simp add: later_message_def scenario_keywords) (simp add: kw_delay_def)
  moreover have "msgText later_message \<noteq> []" by (simp add: later_message_def kw_delay_def)
  ultimately have "snd (handleMessage arabic_engine ?cfg ?cb (readingsAt 3786000) ?w2
                          later_message) \<noteq> None"
    unfolding handleMessage_detects_iff using chat by (simp del: processNewMessages.simps)
  from scenario_watermark [OF this] w4 have mark4: "startupTime ?w4 = 3786000"
    by (simp add: clocks del: processNewMessages.simps)
  have old: "\<not> isRecentMessage ?w4 (nowRecent (readingsAt 3790000)) (timestamp fresh_candidate)"
    by (simp add: isRecentMessage_iff mark4 stamp clocks startupFloorTime_def
          del: processNewMessages.simps)
  have "(snd (handleMessage arabic_engine ?cfg ?cb (readingsAt 3790000) ?w4
                 fresh_candidate) \<noteq> None)
        = (isRecentMessage ?w4 (nowRecent (readingsAt 3790000)) (timestamp fresh_candidate)
           \<and> \<not> shouldFilterByChat ?cfg (chatAtFilter (readingsAt 3790000)))"
    using t [of "[]" "readingsAt 0"
               "[(readingsAt 185500, hello_message), (readingsAt 3786000, later_message)]"
               "readingsAt 3790000"]
    by (simp add: clocks ttl scenario_quiet del: processNewMessages.simps)
  with old have fourth: "snd (handleMessage arabic_engine ?cfg ?cb (readingsAt 3790000) ?w4
                       fresh_candidate) = None"
    by blast
  from scenario_fresh_detection second third fourth show ?thesis
    by (simp del: processNewMessages.simps)
qed

text \<open>
  C5 as stated fails for a candidate stamped in a minute before the one of its detection:
  a candidate stamped 120000 is detected at 185000, which moves the watermark to 185000;
  handed in again it is dropped, and handed in after the TTL it is dropped as old, since
  120000 is below 180000.
\<close>

theorem redetection_after_expiry_counterexample:
  "snd (handleMessage arabic_engine (defaultDetection [JStr kw_delay]) (Some reportCallback)
          (readingsAt 185000) (initialize (newMessageWatcher 60000)) delay_candidate) \<noteq> None
   \<and> snd (handleMessage arabic_engine (defaultDetection [JStr kw_delay]) (Some reportCallback)
        (readingsAt 186000)
        (fst (handleMessage arabic_engine (defaultDetection [JStr kw_delay])
           (Some reportCallback) (readingsAt 185000) (initialize (newMessageWatcher 60000))
           delay_candidate))
        delay_candidate) = None
   \<and> duplicateCacheTTL (defaultDetection [JStr kw_delay]) \<le> 3785000 - 185000
   \<and> snd (handleMessage arabic_engine (defaultDetection [JStr kw_delay]) (Some reportCallback)
        (readingsAt 3785000)
        (fst (handleMessage arabic_engine (defaultDetection [JStr kw_delay])
           (Some reportCallback) (readingsAt 186000)
           (fst (handleMessage arabic_engine (defaultDetection [JStr kw_delay])
              (Some reportCallback) (readingsAt 185000) (initialize (newMessageWatcher 60000))
              delay_candidate))
           delay_candidate))
        delay_candidate) = None"
proof -
  let ?cfg = "defaultDetection [JStr kw_delay]"
  let ?H = "handleMessage arabic_engine ?cfg (Some reportCallback)
          (readingsAt 185000) (initialize (newMessageWatcher 60000)) delay_candidate"
  have mark: "startupTime (fst ?H) = 185000"
    using scenario_watermark [OF scenario_delay_detection] by (simp add: readingsAt_def)
  have stamp: "timestamp delay_candidate = Some 120000" by (simp add: delay_candidate_def)
  have old: "\<not> isRecentMessage (fst ?H) (nowRecent (readingsAt t)) (timestamp delay_candidate)" for t
    by (simp add: isRecentMessage_iff mark stamp startupFloorTime_def)
  have drop: "handleMessage arabic_engine ?cfg (Some reportCallback) (readingsAt t) (fst ?H)
                delay_candidate = (fst ?H, None)" for t
    using old by (rule handleMessage_dropped_old)
  have ttl: "duplicateCacheTTL ?cfg \<le> 3785000 - 185000"
    by (simp add: defaultDetection_def)
  from scenario_delay_detection ttl show ?thesis by (simp add: drop)
qed

text \<open>
  C9. When \<open>_isDuplicate\<close> answers true it leaves the watcher, and so the cache, as it
  was. Hence the window does not slide: after a fingerprint is recorded at \<open>t0\<close> and seen
  again as a duplicate at \<open>t1\<close>, the candidate is no duplicate at any \<open>t2\<close> with
  \<open>t2 - t0\<close> at least the TTL, however close \<open>t2\<close> is to \<open>t1\<close>.
\<close>

theorem duplicate_verdict_leaves_cache:
  "(fst (isDuplicate cfg now nowC w text stamp key) \<longrightarrow>
      snd (isDuplicate cfg now nowC w text stamp key) = w)
   \<and> (enableDuplicateProtection cfg
      \<and> \<not> fst (isDuplicate cfg t0 c0 w text stamp key)
      \<and> fst (isDuplicate cfg t1 c1 (snd (isDuplicate cfg t0 c0 w text stamp key)) text stamp key)
      \<and> duplicateCacheTTL cfg \<le> t2 - t0
      \<longrightarrow> \<not> fst (isDuplicate cfg t2 c2
                   (snd (isDuplicate cfg t1 c1 (snd (isDuplicate cfg t0 c0 w text stamp key))
                           text stamp key))
                   text stamp key))"
proof -
  have a: "fst (isDuplicate cfg now nowC w text stamp key) \<longrightarrow>
      snd (isDuplicate cfg now nowC w text stamp key) = w"
    by (simp add: isDuplicate_true_unchanged)
  have b: "\<not> fst (isDuplicate cfg t2 c2
                   (snd (isDuplicate cfg t1 c1 (snd (isDuplicate cfg t0 c0 w text stamp key))
                           text stamp key))
                   text stamp key)"
    if "enableDuplicateProtection cfg" "\<not> fst (isDuplicate cfg t0 c0 w text stamp key)"
       "fst (isDuplicate cfg t1 c1 (snd (isDuplicate cfg t0 c0 w text stamp key)) text stamp key)"
       "duplicateCacheTTL cfg \<le> t2 - t0"
  proof -
    have "snd (isDuplicate cfg t1 c1 (snd (isDuplicate cfg t0 c0 w text stamp key)) text stamp key)
            = snd (isDuplicate cfg t0 c0 w text stamp key)"
      using that(3) by (rule isDuplicate_true_unchanged)
    moreover have "\<not> fst (isDuplicate cfg t2 c2 (snd (isDuplicate cfg t0 c0 w text stamp key))
                        text stamp key)"
      using that(1,2,4) by (rule isDuplicate_again_expired)
    ultimately show ?thesis by simp
  qed
  from a b show ?thesis by blast
qed

theorem duplicate_verdict_leaves_cache_witness:
  "fst (isDuplicate (defaultDetection []) 3000000 3000000
          (snd (isDuplicate (defaultDetection []) 0 0 (initialize (newMessageWatcher 0))
                  (asc ''late'') (Some 5) None))
          (asc ''late'') (Some 5) None)
   \<and> snd (isDuplicate (defaultDetection []) 3000000 3000000
          (snd (isDuplicate (defaultDetection []) 0 0 (initialize (newMessageWatcher 0))
                  (asc ''late'') (Some 5) None))
          (asc ''late'') (Some 5) None)
       = snd (isDuplicate (defaultDetection []) 0 0 (initialize (newMessageWatcher 0))
                  (asc ''late'') (Some 5) None)
   \<and> \<not> fst (isDuplicate (defaultDetection []) 3600000 3600000
          (snd (isDuplicate (defaultDetection []) 3000000 3000000
             (snd (isDuplicate (defaultDetection []) 0 0 (initialize (newMessageWatcher 0))
                     (asc ''late'') (Some 5) None))
             (asc ''late'') (Some 5) None))
          (asc ''late'') (Some 5) None)"
proof -
  let ?cfg = "defaultDetection []"
  let ?w = "initialize (newMessageWatcher 0)"
  let ?D0 = "isDuplicate ?cfg 0 0 ?w (asc ''late'') (Some 5) None"
  let ?D1 = "isDuplicate ?cfg 3000000 3000000 (snd ?D0) (asc ''late'') (Some 5) None"
  have prot: "enableDuplicateProtection ?cfg" by (simp add: defaultDetection_def)
  have "\<not> isHashRecent ?cfg ?w h u" for h u
    by (simp add: isHashRecent_def initialize_def newMessageWatcher_def)
  then have first: "\<not> fst ?D0" using prot by (simp add: isDuplicate_verdict)
  have second: "fst ?D1"
    using prot first by (rule isDuplicate_again_within) (simp_all add: defaultDetection_def)
  have ttl: "duplicateCacheTTL ?cfg \<le> 3600000 - 0" by (simp add: defaultDetection_def)
  note fact1 = duplicate_verdict_leaves_cache
             [of ?cfg 3000000 3000000 "snd ?D0" "asc ''late''" "Some 5" None]
  note t = duplicate_verdict_leaves_cache
             [of ?cfg _ _ ?w "asc ''late''" "Some 5" None 0 0 3000000 3000000 3600000 3600000]
  from fact1 second have same: "snd ?D1 = snd ?D0" by blast
  from t prot first second ttl have "\<not> fst (isDuplicate ?cfg 3600000 3600000 (snd ?D1)
          (asc ''late'') (Some 5) None)"
    by blast
  with second same show ?thesis by simp
qed

section \<open>The seen keys of the page\<close>

lemma processNode_none: "nodeDedupeKey n = None \<Longrightarrow> processNode n p = p"
  by (auto simp: nodeDedupeKey_def processNode_def Let_def split: option.splits if_splits)

lemma processNode_seen:
  "nodeDedupeKey n = Some k \<Longrightarrow> k \<in> seenMessageKeys p \<Longrightarrow> processNode n p = p"
  by (auto simp: nodeDedupeKey_def processNode_def Let_def split: option.splits if_splits)

lemma processNode_new:
  "nodeDedupeKey n = Some k \<Longrightarrow> k \<notin> seenMessageKeys p \<Longrightarrow>
   seenMessageKeys (processNode n p) = insert k (seenMessageKeys p)
   \<and> length (messageQueue (processNode n p)) = Suc (length (messageQueue p))"
  by (auto simp: nodeDedupeKey_def processNode_def Let_def split: option.splits if_splits)

lemma processNode_records:
  "nodeDedupeKey n = Some k \<Longrightarrow> k \<in> seenMessageKeys (processNode n p)"
  using processNode_seen [of n k p] processNode_new [of n k p]
  by (cases "k \<in> seenMessageKeys p") auto

lemma processNode_keeps: "k \<in> seenMessageKeys p \<Longrightarrow> k \<in> seenMessageKeys (processNode n p)"
  by (auto simp: processNode_def Let_def split: option.splits)

lemma added_keeps:
  "k \<in> seenMessageKeys p \<Longrightarrow> k \<in> seenMessageKeys (foldl (\<lambda>q n. processNode n q) p nodes)"
  by (induction nodes arbitrary: p) (simp_all add: processNode_keeps)

lemma pageStep_keeps: "k \<in> seenMessageKeys p \<Longrightarrow> k \<in> seenMessageKeys (pageStep p e)"
  by (cases e) (simp_all add: added_keeps)

lemma pageRun_keeps: "k \<in> seenMessageKeys p \<Longrightarrow> k \<in> seenMessageKeys (pageRun p events)"
  unfolding pageRun_def
  by (induction events arbitrary: p) (simp_all add: pageStep_keeps)

text \<open>
  C10. Once a node with a dedupe key has been processed, the key is in the page's set of seen
  keys after any sequence of events (injection, batches of added nodes, taking the queue,
  \<open>resetAfterAlarmStop\<close>), and a node with the same dedupe key is dropped: processing it
  changes neither the queue nor the set. \<open>resetAfterAlarmStop\<close> leaves the set as it is.
\<close>

theorem seen_key_suppression_is_permanent:
  assumes "nodeDedupeKey n0 = Some k" and "nodeDedupeKey n = Some k"
  shows "k \<in> seenMessageKeys (pageRun (processNode n0 p) events)
       \<and> processNode n (pageRun (processNode n0 p) events) = pageRun (processNode n0 p) events
       \<and> seenMessageKeys (pageStep q ResetAfterAlarmStop) = seenMessageKeys q"
proof -
  have "k \<in> seenMessageKeys (processNode n0 p)"
    using assms(1) by (rule processNode_records)
  then have k: "k \<in> seenMessageKeys (pageRun (processNode n0 p) events)"
    by (rule pageRun_keeps)
  with assms(2) have "processNode n (pageRun (processNode n0 p) events)
                        = pageRun (processNode n0 p) events"
    by (rule processNode_seen)
  with k show ?thesis by simp
qed

lemma sample_node_key: "nodeDedupeKey sample_node \<noteq> None"
  by (simp add: nodeDedupeKey_def sample_node_def trim_def isWhiteSpace_def asc_def
        MIN_MESSAGE_LENGTH_def Let_def)

theorem seen_key_suppression_is_permanent_witness:
  "messageQueue (processNode sample_node emptyPage) \<noteq> []
   \<and> messageQueue (pageRun (processNode sample_node emptyPage)
        [Drain, ResetAfterAlarmStop, Added [sample_node]]) = []"
proof -
  from sample_node_key obtain k where k: "nodeDedupeKey sample_node = Some k" by auto
  have "k \<notin> seenMessageKeys emptyPage" by (simp add: emptyPage_def)
  with k have "length (messageQueue (processNode sample_node emptyPage))
                 = Suc (length (messageQueue emptyPage))"
    using processNode_new by blast
  then have a: "messageQueue (processNode sample_node emptyPage) \<noteq> []" by auto
  from seen_key_suppression_is_permanent
         [OF k k, of emptyPage "[Drain, ResetAfterAlarmStop]"]
  have "processNode sample_node
          (pageRun (processNode sample_node emptyPage) [Drain, ResetAfterAlarmStop])
        = pageRun (processNode sample_node emptyPage) [Drain, ResetAfterAlarmStop]"
    by simp
  then have "messageQueue (pageRun (processNode sample_node emptyPage)
        [Drain, ResetAfterAlarmStop, Added [sample_node]]) = []"
    by (simp add: pageRun_def)
  with a show ?thesis by simp
qed

end
